theory Spec2Isabelle
  imports Complex_Main "HOL-Library.Sublist"
begin

section \<open>Data model\<close>

text \<open>
  The class \<open>AndroidEnv\<close> of \<open>android_env/android_env.py\<close> is embedded as a record of
  its attributes, and every method as a function from the object before the call to the
  object after it, paired with what the call returns or raises.  A Python exception leaves
  the attributes assigned so far in place, so the state is returned in both cases.

  A Python float is embedded as the \<open>real\<close> it stands for.  The counters hold whole
  numbers, which floats count exactly up to \<open>2 ^ 53\<close>; the division of floats and the
  conversion of the elements of an array, which round, are parameters of the functions
  that use them.
\<close>

datatype StepType = FIRST | MID | LAST

datatype py_error =
  KeyError | ValueError | IndexError | TypeError | AttributeError | ZeroDivisionError
  | SchemaViolation

datatype dtype = int32 | int64 | float32 | float64

text \<open>A numpy array: its dtype, its shape and its elements in row-major order.\<close>

record ndarray =
  arr_dtype :: dtype
  arr_shape :: "nat list"
  arr_data :: "real list"

type_synonym array_dict = "string \<rightharpoonup> ndarray"

type_synonym counters = "string \<rightharpoonup> real"

text \<open>\<open>dm_env.TimeStep\<close>, a named tuple of four fields.\<close>

record TimeStep =
  step_type :: StepType
  reward :: real
  discount :: real
  observation :: array_dict

text \<open>
  The coordinator and the task manager are collaborators outside the class.  What they
  answer during one call of \<open>reset\<close> or \<open>step\<close> is an input of that call: each of their
  methods is called at most once per call.  \<open>None\<close> is Python's \<open>None\<close>.
\<close>

record responses =
  should_restart :: bool
  check_timeout :: bool
  execute_action :: "array_dict option"
  get_current_reward :: real
  get_current_extras :: "array_dict option"
  check_if_episode_ended :: bool

text \<open>The calls the object makes on its collaborators, in the order it makes them.\<close>

datatype collab_call =
  Coordinator_reset
  | Coordinator_execute_action "array_dict option"
  | Coordinator_should_restart
  | Coordinator_restart_simulator
  | Coordinator_check_timeout
  | Coordinator_log_dict
  | Coordinator_close
  | TaskManager_get_current_extras
  | TaskManager_get_current_reward
  | TaskManager_increment_steps
  | TaskManager_check_if_episode_ended
  | Logging_warning string

text \<open>
  The attributes of the object.  \<open>has_coordinator\<close> is \<open>hasattr(self, '_coordinator')\<close>;
  \<open>collab_calls\<close> is the history of calls made on the coordinator and the task manager
  (and of warnings logged), which the collaborators' own state holds in the program.
  Messages logged with \<open>logging.info\<close> are left out, and so are the specs \<open>__init__\<close>
  builds only to log them.
\<close>

record AndroidEnv =
  has_coordinator :: bool
  is_closed :: bool
  latest_action :: array_dict
  latest_observation :: array_dict
  latest_extras :: array_dict
  latest_step_type :: StepType
  reset_next_step :: bool
  log_dict :: counters
  collab_calls :: "collab_call list"

text \<open>
  The members of the enumeration \<open>action_type.ActionType\<close>, in definition order, each with
  its name and its value.  The enumeration is declared outside this file, so every function
  that iterates over it or looks a member up takes it as the parameter \<open>ats\<close>.
\<close>

type_synonym ActionType = "string \<times> int"

definition called :: "collab_call \<Rightarrow> AndroidEnv \<Rightarrow> AndroidEnv" where
  "called c e = e\<lparr>collab_calls := collab_calls e @ [c]\<rparr>"

section \<open>Counters\<close>

definition log_prefixes :: "string list" where
  "log_prefixes = [''androidenv_total'', ''androidenv_episode'']"

definition steps_key :: "string \<Rightarrow> string" where
  "steps_key pfx = pfx @ ''_steps''"

definition type_key :: "string \<Rightarrow> string \<Rightarrow> string" where
  "type_key pfx name = pfx @ ''_action_type_'' @ name"

definition ratio_key :: "string \<Rightarrow> string \<Rightarrow> string" where
  "ratio_key pfx name = pfx @ ''_action_type_ratio_'' @ name"

text \<open>The dictionary \<open>__init__\<close> builds (lines 59 to 67).\<close>

definition init_log_dict :: "ActionType list \<Rightarrow> counters" where
  "init_log_dict ats =
     fold (\<lambda>pfx d.
             fold (\<lambda>act_type d'. d'(type_key pfx (fst act_type) \<mapsto> 0)) ats
               (d(steps_key pfx \<mapsto> 0)))
       log_prefixes
       [''restart_count'' \<mapsto> 0, ''reset_count_step_timeout'' \<mapsto> 0]"

definition init :: "ActionType list \<Rightarrow> AndroidEnv" where
  "init ats =
     \<lparr>has_coordinator = True, is_closed = False, latest_action = Map.empty,
      latest_observation = Map.empty, latest_extras = Map.empty,
      latest_step_type = LAST, reset_next_step = True,
      log_dict = init_log_dict ats, collab_calls = []\<rparr>"

definition startswith :: "string \<Rightarrow> string \<Rightarrow> bool" where
  "startswith key p = prefix p key"

text \<open>
  \<open>_reset_log_dict\<close>: the loop visits every key of the dictionary and assigns \<open>0.0\<close> to
  those that start with \<open>androidenv_episode\<close>.
\<close>

definition reset_log_dict :: "counters \<Rightarrow> counters" where
  "reset_log_dict d =
     (\<lambda>key. if startswith key ''androidenv_episode'' then map_option (\<lambda>_. 0) (d key)
            else d key)"

text \<open>\<open>ActionType(act_type)\<close>: the member with that value, \<open>ValueError\<close> when there is none.\<close>

definition ActionType_of :: "ActionType list \<Rightarrow> real \<Rightarrow> py_error + ActionType" where
  "ActionType_of ats v =
     (case find (\<lambda>t. real_of_int (snd t) = v) ats of
        None \<Rightarrow> Inl ValueError
      | Some t \<Rightarrow> Inr t)"

text \<open>
  The loop of \<open>_update_log_dict\<close>.  Each \<open>+= 1\<close> reads the key first and raises
  \<open>KeyError\<close> when it is absent; the increments made before stay.
\<close>

fun update_prefixes :: "string list \<Rightarrow> string \<Rightarrow> counters \<Rightarrow> counters \<times> py_error option" where
  "update_prefixes [] name d = (d, None)"
| "update_prefixes (p # ps) name d =
     (case d (steps_key p) of
        None \<Rightarrow> (d, Some KeyError)
      | Some n \<Rightarrow>
          (let d1 = d(steps_key p \<mapsto> n + 1) in
           case d1 (type_key p name) of
             None \<Rightarrow> (d1, Some KeyError)
           | Some c \<Rightarrow> update_prefixes ps name (d1(type_key p name \<mapsto> c + 1))))"

definition update_log_dict :: "ActionType list \<Rightarrow> real \<Rightarrow> counters \<Rightarrow> counters \<times> py_error option" where
  "update_log_dict ats act_type d =
     (case ActionType_of ats act_type of
        Inl err \<Rightarrow> (d, Some err)
      | Inr t \<Rightarrow> update_prefixes log_prefixes (fst t) d)"

section \<open>reset and step\<close>

text \<open>
  \<open>dm_env.termination(reward, observation)\<close> of the library dm_env:
  a \<open>TimeStep\<close> of type \<open>LAST\<close> with discount \<open>0.0\<close>.
\<close>

definition dm_env_termination :: "array_dict \<Rightarrow> real \<Rightarrow> TimeStep" where
  "dm_env_termination obs r = \<lparr>step_type = LAST, reward = r, discount = 0, observation = obs\<rparr>"

text \<open>\<open>ndarray.item()\<close>: the single element of an array of size one.\<close>

definition item :: "ndarray \<Rightarrow> py_error + real" where
  "item a = (case arr_data a of [x] \<Rightarrow> Inr x | _ \<Rightarrow> Inl ValueError)"

text \<open>
  \<open>reset\<close> (lines 92 to 119).  \<open>task_extras.copy()\<close> raises \<open>AttributeError\<close> on \<open>None\<close>,
  after the observation has been stored.
\<close>

definition reset :: "responses \<Rightarrow> AndroidEnv \<Rightarrow> AndroidEnv \<times> (py_error + TimeStep)" where
  "reset r e0 =
     (let e1 = called Coordinator_reset e0;
          e2 = e1\<lparr>latest_action := Map.empty\<rparr>;
          e3 = e2\<lparr>log_dict := reset_log_dict (log_dict e2)\<rparr>;
          e4 = called (Coordinator_execute_action None) e3;
          e5 = called TaskManager_get_current_extras e4;
          e6 = (case execute_action r of
                  None \<Rightarrow> e5
                | Some obs \<Rightarrow> e5\<lparr>latest_observation := obs\<rparr>)
      in case get_current_extras r of
           None \<Rightarrow> (e6, Inl AttributeError)
         | Some extras \<Rightarrow>
             (let e7 = e6\<lparr>latest_extras := extras\<rparr>;
                  e8 = e7\<lparr>reset_next_step := False\<rparr>;
                  e9 = e8\<lparr>latest_step_type := FIRST\<rparr>
              in (e9, Inr \<lparr>step_type = latest_step_type e9, reward = 0, discount = 0,
                           observation = latest_observation e9\<rparr>)))"

text \<open>The last part of \<open>step\<close> (lines 146 to 167): the action is counted and executed.\<close>

definition step_execute ::
  "ActionType list \<Rightarrow> responses \<Rightarrow> array_dict \<Rightarrow> AndroidEnv \<Rightarrow> AndroidEnv \<times> (py_error + TimeStep)" where
  "step_execute ats r action e0 =
     (case action ''action_type'' of
        None \<Rightarrow> (e0, Inl KeyError)
      | Some a \<Rightarrow>
          (case item a of
             Inl err \<Rightarrow> (e0, Inl err)
           | Inr act_type \<Rightarrow>
               (case update_log_dict ats act_type (log_dict e0) of
                  (d, Some err) \<Rightarrow> (e0\<lparr>log_dict := d\<rparr>, Inl err)
                | (d, None) \<Rightarrow>
                    (let e1 = e0\<lparr>log_dict := d\<rparr>;
                         e2 = called TaskManager_increment_steps e1;
                         e3 = called (Coordinator_execute_action (Some action)) e2;
                         e4 = called TaskManager_get_current_reward e3;
                         e5 = called TaskManager_get_current_extras e4;
                         e6 = (case execute_action r of
                                 None \<Rightarrow> e5
                               | Some obs \<Rightarrow> e5\<lparr>latest_observation := obs\<rparr>)
                     in case get_current_extras r of
                          None \<Rightarrow> (e6, Inl AttributeError)
                        | Some extras \<Rightarrow>
                            (let e7 = e6\<lparr>latest_extras := extras\<rparr>;
                                 e8 = called TaskManager_check_if_episode_ended e7;
                                 e9 = e8\<lparr>reset_next_step := check_if_episode_ended r\<rparr>;
                                 e10 = e9\<lparr>latest_step_type :=
                                           (if reset_next_step e9 then LAST else MID)\<rparr>
                             in (e10, Inr \<lparr>step_type = latest_step_type e10,
                                           reward = get_current_reward r,
                                           discount = (if reset_next_step e10 then 0 else 1),
                                           observation = latest_observation e10\<rparr>))))))"

text \<open>\<open>step\<close> (lines 121 to 167).\<close>

definition step ::
  "ActionType list \<Rightarrow> responses \<Rightarrow> array_dict \<Rightarrow> AndroidEnv \<Rightarrow> AndroidEnv \<times> (py_error + TimeStep)" where
  "step ats r action e0 =
     (let e1 = e0\<lparr>latest_action := action\<rparr>;
          e2 = called Coordinator_should_restart e1
      in if should_restart r then
           (case log_dict e2 ''restart_count'' of
              None \<Rightarrow> (e2, Inl KeyError)
            | Some c \<Rightarrow>
                (let e3 = e2\<lparr>log_dict := (log_dict e2)(''restart_count'' \<mapsto> c + 1)\<rparr>;
                     e4 = called Coordinator_restart_simulator e3;
                     e5 = e4\<lparr>reset_next_step := True\<rparr>;
                     e6 = e5\<lparr>latest_step_type := LAST\<rparr>
                 in (e6, Inr (dm_env_termination (latest_observation e6) 0))))
         else
           (let e3 = called Coordinator_check_timeout e2
            in if check_timeout r then
                 (case log_dict e3 ''reset_count_step_timeout'' of
                    None \<Rightarrow> (e3, Inl KeyError)
                  | Some c \<Rightarrow>
                      (let e4 = e3\<lparr>log_dict :=
                                      (log_dict e3)(''reset_count_step_timeout'' \<mapsto> c + 1)\<rparr>;
                           e5 = e4\<lparr>reset_next_step := True\<rparr>;
                           e6 = e5\<lparr>latest_step_type := LAST\<rparr>
                       in (e6, Inr (dm_env_termination (latest_observation e6) 0))))
               else if reset_next_step e3 then reset r e3
               else step_execute ats r action e3))"

definition raw_action :: "AndroidEnv \<Rightarrow> array_dict" where
  "raw_action e = latest_action e"

definition raw_observation :: "AndroidEnv \<Rightarrow> array_dict" where
  "raw_observation e = latest_observation e"

section \<open>Telemetry export\<close>

text \<open>
  The division of two Python floats, which rounds the quotient to a float, is not part of
  this file: it is the parameter \<open>fdiv\<close>.  A division by \<open>0.0\<close> raises
  \<open>ZeroDivisionError\<close>.
\<close>

type_synonym float_division = "real \<Rightarrow> real \<Rightarrow> real"

text \<open>
  The inner loop of \<open>_flush_log_dict\<close> (lines 202 to 205): one ratio per member of the
  enumeration.  The quotient reads the count first, then the number of steps.
\<close>

fun flush_ratios ::
  "float_division \<Rightarrow> string \<Rightarrow> ActionType list \<Rightarrow> counters \<Rightarrow> py_error + counters" where
  "flush_ratios fdiv pfx [] d = Inr d"
| "flush_ratios fdiv pfx (t # ts) d =
     (case d (type_key pfx (fst t)) of
        None \<Rightarrow> Inl KeyError
      | Some c \<Rightarrow>
          (case d (steps_key pfx) of
             None \<Rightarrow> Inl KeyError
           | Some n \<Rightarrow>
               if n = 0 then Inl ZeroDivisionError
               else flush_ratios fdiv pfx ts (d(ratio_key pfx (fst t) \<mapsto> fdiv c n))))"

text \<open>
  The outer loop (lines 198 to 205), with the warnings it logs.  A prefix whose number of
  steps is \<open>0\<close> is skipped with a warning.
\<close>

fun flush_prefixes ::
  "float_division \<Rightarrow> string list \<Rightarrow> ActionType list \<Rightarrow> counters \<Rightarrow> string list \<Rightarrow>
     string list \<times> (py_error + counters)" where
  "flush_prefixes fdiv [] ats d ws = (ws, Inr d)"
| "flush_prefixes fdiv (p # ps) ats d ws =
     (case d (steps_key p) of
        None \<Rightarrow> (ws, Inl KeyError)
      | Some n \<Rightarrow>
          if n = 0
          then flush_prefixes fdiv ps ats d (ws @ [p @ ''_steps is 0. Skipping ratio logs.''])
          else (case flush_ratios fdiv p ats d of
                  Inl err \<Rightarrow> (ws, Inl err)
                | Inr d' \<Rightarrow> flush_prefixes fdiv ps ats d' ws))"

text \<open>
  \<open>_flush_log_dict\<close>: a copy of the counters, updated with the coordinator's own
  dictionary \<open>coord\<close> (its answer to \<open>log_dict()\<close>), then the ratios.
\<close>

definition flush_log_dict ::
  "float_division \<Rightarrow> ActionType list \<Rightarrow> counters \<Rightarrow> AndroidEnv \<Rightarrow>
     AndroidEnv \<times> (py_error + counters)" where
  "flush_log_dict fdiv ats coord e0 =
     (let e1 = called Coordinator_log_dict e0;
          d = log_dict e1 ++ coord;
          (ws, res) = flush_prefixes fdiv log_prefixes ats d []
      in (e1\<lparr>collab_calls := collab_calls e1 @ map Logging_warning ws\<rparr>, res))"

definition android_logs ::
  "float_division \<Rightarrow> ActionType list \<Rightarrow> counters \<Rightarrow> AndroidEnv \<Rightarrow>
     AndroidEnv \<times> (py_error + counters)" where
  "android_logs fdiv ats coord e = flush_log_dict fdiv ats coord e"

text \<open>
  What is assumed of the division of floats where a bound on its rounding is stated: on
  two whole numbers \<open>k \<le> m\<close> up to \<open>2 ^ 53\<close>, which floats hold exactly, the quotient
  it returns is within the relative error \<open>u\<close> of the exact quotient.  The division of
  IEEE 754 doubles, which rounds the exact quotient to the nearest double, is such a
  division for \<open>u = 2 ^ -53\<close>.
\<close>

definition accurate_division :: "float_division \<Rightarrow> real \<Rightarrow> bool" where
  "accurate_division fdiv u \<longleftrightarrow>
     (\<forall>k m :: nat. k \<le> m \<longrightarrow> 0 < m \<longrightarrow> m \<le> 2 ^ 53 \<longrightarrow>
        \<bar>fdiv (real k) (real m) - real k / real m\<bar> \<le> u * (real k / real m))"

text \<open>
  Successive calls of \<open>_update_log_dict\<close>, one per recorded step; the first exception
  ends the sequence.
\<close>

fun update_log_dict_all ::
  "ActionType list \<Rightarrow> real list \<Rightarrow> counters \<Rightarrow> counters \<times> py_error option" where
  "update_log_dict_all ats [] d = (d, None)"
| "update_log_dict_all ats (v # vs) d =
     (case update_log_dict ats v d of
        (d', None) \<Rightarrow> update_log_dict_all ats vs d'
      | (d', Some err) \<Rightarrow> (d', Some err))"

section \<open>Shutdown\<close>

text \<open>\<open>close\<close> (lines 216 to 223) and \<open>__del__\<close> (lines 225 to 227).\<close>

definition close :: "AndroidEnv \<Rightarrow> AndroidEnv" where
  "close e0 =
     (let e1 = (if has_coordinator e0 then called Coordinator_close e0 else e0)
      in e1\<lparr>is_closed := True\<rparr>)"

definition del :: "AndroidEnv \<Rightarrow> AndroidEnv" where
  "del e = (if \<not> is_closed e then close e else e)"

section \<open>Task extras\<close>

text \<open>
  The schema of one task extra, a \<open>dm_env.specs.Array\<close> (or \<open>BoundedArray\<close>): shape,
  dtype and optional bounds.
\<close>

record array_spec =
  spec_shape :: "nat list"
  spec_dtype :: dtype
  spec_bounds :: "(real \<times> real) option"

text \<open>
  Modelled from the spec: \<open>spec.validate\<close> is dm_env's, not this repository's.
  It fails with SchemaViolation when dtype, shape, or declared bounds are not met.
\<close>

definition validate :: "array_spec \<Rightarrow> ndarray \<Rightarrow> py_error + unit" where
  "validate sp a =
     (if arr_shape a \<noteq> spec_shape sp then Inl SchemaViolation
      else if arr_dtype a \<noteq> spec_dtype sp then Inl SchemaViolation
      else (case spec_bounds sp of
              None \<Rightarrow> Inr ()
            | Some (lo, hi) \<Rightarrow>
                if list_all (\<lambda>x. lo \<le> x \<and> x \<le> hi) (arr_data a) then Inr ()
                else Inl SchemaViolation))"

text \<open>
  \<open>ndarray.astype(dtype)\<close> of numpy: the same shape, the new dtype, every element
  converted.  How numpy converts one element (truncation, wrap-around, rounding) is not
  part of this file: the conversion is the parameter \<open>conv\<close>, which gives, for the dtype
  of the array and the new dtype, the converted element.
\<close>

type_synonym conversion = "dtype \<Rightarrow> dtype \<Rightarrow> real \<Rightarrow> real"

definition astype :: "conversion \<Rightarrow> dtype \<Rightarrow> ndarray \<Rightarrow> ndarray" where
  "astype conv dt a = a\<lparr>arr_dtype := dt, arr_data := map (conv (arr_dtype a) dt) (arr_data a)\<rparr>"

text \<open>
  The sub-array at index \<open>i\<close> of the first axis, and the two ways the method reads the
  first axis: the iteration \<open>for extra in extra_values\<close> (a \<open>TypeError\<close> on an array of
  no dimension) and the index \<open>extra_values[-1]\<close> (an \<open>IndexError\<close> when there is no
  last element).
\<close>

definition sub_array :: "ndarray \<Rightarrow> nat list \<Rightarrow> nat \<Rightarrow> ndarray" where
  "sub_array a s i =
     \<lparr>arr_dtype = arr_dtype a, arr_shape = s,
      arr_data = take (prod_list s) (drop (i * prod_list s) (arr_data a))\<rparr>"

definition iterate :: "ndarray \<Rightarrow> py_error + ndarray list" where
  "iterate a =
     (case arr_shape a of
        [] \<Rightarrow> Inl TypeError
      | n # s \<Rightarrow> Inr (map (sub_array a s) [0..<n]))"

definition index_last :: "ndarray \<Rightarrow> py_error + ndarray" where
  "index_last a =
     (case arr_shape a of
        [] \<Rightarrow> Inl IndexError
      | n # s \<Rightarrow> if n = 0 then Inl IndexError else Inr (sub_array a s (n - 1)))"

text \<open>The loop \<open>for extra in extra_values: spec.validate(extra)\<close>.\<close>

fun validate_each :: "array_spec \<Rightarrow> ndarray list \<Rightarrow> py_error + unit" where
  "validate_each sp [] = Inr ()"
| "validate_each sp (x # xs) =
     (case validate sp x of
        Inl err \<Rightarrow> Inl err
      | Inr _ \<Rightarrow> validate_each sp xs)"

text \<open>The body of the loop of \<open>task_extras\<close> for a key that is cached (lines 175 to 178).\<close>

definition task_extra :: "conversion \<Rightarrow> array_spec \<Rightarrow> bool \<Rightarrow> ndarray \<Rightarrow> py_error + ndarray" where
  "task_extra conv sp latest_only cached =
     (let extra_values = astype conv (spec_dtype sp) cached
      in case iterate extra_values of
           Inl err \<Rightarrow> Inl err
         | Inr extras \<Rightarrow>
             (case validate_each sp extras of
                Inl err \<Rightarrow> Inl err
              | Inr _ \<Rightarrow> if latest_only then index_last extra_values else Inr extra_values))"

text \<open>
  The loop of \<open>task_extras\<close> over the items of the schema, in the dictionary's order,
  with the dictionary built so far.
\<close>

fun task_extras_items ::
  "conversion \<Rightarrow> (string \<times> array_spec) list \<Rightarrow> bool \<Rightarrow> array_dict \<Rightarrow> array_dict \<Rightarrow>
     py_error + array_dict" where
  "task_extras_items conv [] latest_only cache acc = Inr acc"
| "task_extras_items conv ((key, sp) # rest) latest_only cache acc =
     (case cache key of
        None \<Rightarrow> task_extras_items conv rest latest_only cache acc
      | Some cached \<Rightarrow>
          (case task_extra conv sp latest_only cached of
             Inl err \<Rightarrow> Inl err
           | Inr v \<Rightarrow> task_extras_items conv rest latest_only cache (acc(key \<mapsto> v))))"

text \<open>
  \<open>task_extras\<close> (lines 169 to 179).  \<open>specs\<close> is \<open>self.task_extras_spec()\<close>, the schema
  derived from the task, which is built outside this file.
\<close>

definition task_extras ::
  "conversion \<Rightarrow> (string \<times> array_spec) list \<Rightarrow> bool \<Rightarrow> AndroidEnv \<Rightarrow> py_error + array_dict" where
  "task_extras conv specs latest_only e =
     task_extras_items conv specs latest_only (latest_extras e) Map.empty"

section \<open>Sequences of calls\<close>

datatype api_call = Reset responses | Step responses array_dict

fun do_call :: "ActionType list \<Rightarrow> api_call \<Rightarrow> AndroidEnv \<Rightarrow> AndroidEnv \<times> (py_error + TimeStep)" where
  "do_call ats (Reset r) e = reset r e"
| "do_call ats (Step r action) e = step ats r action e"

text \<open>The object after a sequence of calls, and what each call returned or raised.\<close>

fun exec :: "ActionType list \<Rightarrow> api_call list \<Rightarrow> AndroidEnv \<Rightarrow> AndroidEnv" where
  "exec ats [] e = e"
| "exec ats (c # cs) e = exec ats cs (fst (do_call ats c e))"

fun run :: "ActionType list \<Rightarrow> api_call list \<Rightarrow> AndroidEnv \<Rightarrow> (py_error + TimeStep) list" where
  "run ats [] e = []"
| "run ats (c # cs) e = snd (do_call ats c e) # run ats cs (fst (do_call ats c e))"

text \<open>The step type a call returned; \<open>None\<close> when it raised.\<close>

definition returned_type :: "py_error + TimeStep \<Rightarrow> StepType option" where
  "returned_type res = (case res of Inl err \<Rightarrow> None | Inr ts \<Rightarrow> Some (step_type ts))"

text \<open>
  A call of \<open>step\<close> at which the coordinator asks for a restart or reports a timeout,
  and the answers of the collaborators during a call.
\<close>

definition infrastructure_terminated :: "api_call \<Rightarrow> bool" where
  "infrastructure_terminated c =
     (case c of Reset r \<Rightarrow> False | Step r action \<Rightarrow> should_restart r \<or> check_timeout r)"

definition responses_of :: "api_call \<Rightarrow> responses" where
  "responses_of c = (case c of Reset r \<Rightarrow> r | Step r action \<Rightarrow> r)"

text \<open>
  The keys \<open>__init__\<close> gives the dictionary of counters: the two lifetime counters of
  restarts and timeouts and, for each prefix, the number of steps and one count per member
  of the enumeration.
\<close>

definition ledger_keys :: "ActionType list \<Rightarrow> string set" where
  "ledger_keys ats =
     {''restart_count'', ''reset_count_step_timeout''}
     \<union> steps_key ` set log_prefixes
     \<union> (\<Union>p \<in> set log_prefixes. type_key p ` fst ` set ats)"

text \<open>
  What is assumed of the enumeration \<open>ActionType\<close>: its members have distinct names and
  distinct values, as those of a Python enumeration have, and no name is \<open>ratio_\<close>
  followed by another member's name, so that no key of a ratio is the key of a count.
\<close>

definition well_formed_enum :: "ActionType list \<Rightarrow> bool" where
  "well_formed_enum ats \<longleftrightarrow>
     distinct (map fst ats) \<and> distinct (map snd ats)
     \<and> list_all (\<lambda>a. list_all (\<lambda>b. fst a \<noteq> ''ratio_'' @ fst b) ats) ats"

text \<open>
  A call of \<open>step\<close>, given by the answers of the collaborators and the action, that
  records a step of action type \<open>t\<close> once no reset is pending: neither a restart nor a
  timeout, task extras that are not \<open>None\<close>, and an action whose \<open>action_type\<close> is the
  value of the member \<open>t\<close>.
\<close>

definition recorded :: "ActionType list \<Rightarrow> responses \<times> array_dict \<Rightarrow> ActionType \<Rightarrow> bool" where
  "recorded ats ra t \<longleftrightarrow>
     \<not> should_restart (fst ra) \<and> \<not> check_timeout (fst ra) \<and> get_current_extras (fst ra) \<noteq> None
     \<and> t \<in> set ats
     \<and> (case snd ra ''action_type'' of
          None \<Rightarrow> False
        | Some a \<Rightarrow> item a = Inr (real_of_int (snd t)))"

section \<open>Sample inputs\<close>

text \<open>
  Inputs for the closed instances below: an enumeration of three action types, an
  observation, an action of type \<open>LIFT\<close>, and collaborators that report nothing special.
\<close>

abbreviation (input) sample_types :: "ActionType list" where
  "sample_types \<equiv> [(''TOUCH'', 0), (''LIFT'', 1), (''REPEAT'', 2)]"

abbreviation (input) sample_obs :: array_dict where
  "sample_obs \<equiv> [''pixels'' \<mapsto> \<lparr>arr_dtype = int32, arr_shape = [2], arr_data = [7, 9]\<rparr>]"

abbreviation (input) sample_action :: array_dict where
  "sample_action \<equiv> [''action_type'' \<mapsto> \<lparr>arr_dtype = int32, arr_shape = [], arr_data = [1]\<rparr>]"

abbreviation (input) quiet :: responses where
  "quiet \<equiv> \<lparr>should_restart = False, check_timeout = False, execute_action = Some sample_obs,
     get_current_reward = 1, get_current_extras = Some Map.empty,
     check_if_episode_ended = False\<rparr>"

text \<open>An action of type \<open>TOUCH\<close>.\<close>

abbreviation (input) touch_action :: array_dict where
  "touch_action \<equiv> [''action_type'' \<mapsto> \<lparr>arr_dtype = int32, arr_shape = [], arr_data = [0]\<rparr>]"

text \<open>
  The conversion of elements in the closed instances: it keeps the value, as numpy does
  when the new dtype holds the value exactly.  The instances convert no other value.
\<close>

abbreviation (input) exact :: conversion where
  "exact \<equiv> (\<lambda>from_dtype to_dtype x. x)"

text \<open>
  The division of floats in the closed instances: the exact quotient, which is what the
  division returns when a float holds it, as in the instances (\<open>1 / 2\<close> and \<open>0\<close>).
\<close>

abbreviation (input) exact_division :: float_division where
  "exact_division \<equiv> (\<lambda>c n. c / n)"

text \<open>The schema of one task extra, a number between 0 and 10.\<close>

abbreviation (input) score_spec :: array_spec where
  "score_spec \<equiv> \<lparr>spec_shape = [], spec_dtype = float64, spec_bounds = Some (0, 10)\<rparr>"

section \<open>Properties of the counters\<close>

text \<open>No method adds a key to the counters or removes one.\<close>

lemma dom_fold_types:
  "dom (fold (\<lambda>act_type d'. d'(type_key p (fst act_type) \<mapsto> (0::real))) ats d) =
     dom d \<union> type_key p ` fst ` set ats"
  by (induction ats arbitrary: d) auto

lemma dom_init_log_dict: "dom (init_log_dict ats) = ledger_keys ats"
  by (auto simp add: init_log_dict_def ledger_keys_def log_prefixes_def dom_fold_types)

lemma dom_reset_log_dict: "dom (reset_log_dict d) = dom d"
  by (auto simp add: reset_log_dict_def dom_def)

lemma dom_upd_present: "m k = Some v \<Longrightarrow> dom (m(k \<mapsto> w)) = dom m"
  by auto

lemma dom_update_prefixes: "dom (fst (update_prefixes ps name d)) = dom d"
proof (induction ps arbitrary: d)
  case Nil
  show ?case by simp
next
  case (Cons p ps)
  show ?case
  proof (cases "d (steps_key p)")
    case None
    then show ?thesis by simp
  next
    case (Some n)
    define d1 where "d1 = d(steps_key p \<mapsto> n + 1)"
    have d1: "dom d1 = dom d"
      unfolding d1_def using Some by (rule dom_upd_present)
    show ?thesis
    proof (cases "d1 (type_key p name)")
      case None
      then have "update_prefixes (p # ps) name d = (d1, Some KeyError)"
        using Some unfolding d1_def by simp
      with d1 show ?thesis by simp
    next
      case c: (Some c)
      define d2 where "d2 = d1(type_key p name \<mapsto> c + 1)"
      have d2: "dom d2 = dom d1"
        unfolding d2_def using c by (rule dom_upd_present)
      have "update_prefixes (p # ps) name d = update_prefixes ps name d2"
        using Some c unfolding d2_def d1_def by simp
      with Cons.IH [of d2] d1 d2 show ?thesis by simp
    qed
  qed
qed

lemma dom_update_log_dict: "dom (fst (update_log_dict ats v d)) = dom d"
  by (simp add: update_log_dict_def dom_update_prefixes split: sum.splits)

lemma log_dict_called [simp]: "log_dict (called c e) = log_dict e"
  by (simp add: called_def)

lemma dom_reset: "dom (log_dict (fst (reset r e))) = dom (log_dict e)"
  by (simp add: reset_def Let_def dom_reset_log_dict split: option.splits)

lemma dom_update_log_dict_eq: "update_log_dict ats v d = (d', x) \<Longrightarrow> dom d' = dom d"
  using dom_update_log_dict [of ats v d] by simp

lemma dom_step_execute: "dom (log_dict (fst (step_execute ats r a e))) = dom (log_dict e)"
  by (simp add: step_execute_def Let_def dom_update_log_dict_eq
      split: option.splits sum.splits prod.splits)

lemma dom_step: "dom (log_dict (fst (step ats r a e))) = dom (log_dict e)"
  by (auto simp add: step_def Let_def dom_reset dom_step_execute split: option.splits)

lemma dom_do_call: "dom (log_dict (fst (do_call ats c e))) = dom (log_dict e)"
  by (cases c) (simp_all add: dom_reset dom_step)

lemma dom_exec: "dom (log_dict (exec ats cs e)) = dom (log_dict e)"
  by (induction cs arbitrary: e) (simp_all add: dom_do_call)

lemma dom_reachable: "dom (log_dict (exec ats cs (init ats))) = ledger_keys ats"
  by (simp add: dom_exec init_def dom_init_log_dict)

section \<open>The reset of the episode counters\<close>

text \<open>
  Claim C7.  After \<open>_reset_log_dict\<close>, which \<open>reset\<close> runs on the counters each time it
  is called, every counter that was present and whose name starts with
  \<open>androidenv_episode\<close> reads \<open>0\<close>, and every other key holds what it held before.  The
  episode's number of steps and its counts per action type are of the first kind; the
  lifetime number of steps, the lifetime counts per action type and the counters of
  restarts and of step timeouts are of the second kind.  No key is added or removed.
\<close>

theorem begin_episode_scopes:
  "(\<forall>key v. d key = Some v \<longrightarrow> startswith key ''androidenv_episode'' \<longrightarrow>
       reset_log_dict d key = Some 0)
   \<and> (\<forall>key. \<not> startswith key ''androidenv_episode'' \<longrightarrow> reset_log_dict d key = d key)
   \<and> startswith (steps_key ''androidenv_episode'') ''androidenv_episode''
   \<and> (\<forall>name. startswith (type_key ''androidenv_episode'' name) ''androidenv_episode'')
   \<and> \<not> startswith (steps_key ''androidenv_total'') ''androidenv_episode''
   \<and> (\<forall>name. \<not> startswith (type_key ''androidenv_total'' name) ''androidenv_episode'')
   \<and> \<not> startswith ''restart_count'' ''androidenv_episode''
   \<and> \<not> startswith ''reset_count_step_timeout'' ''androidenv_episode''
   \<and> dom (reset_log_dict d) = dom d
   \<and> log_dict (fst (reset r e)) = reset_log_dict (log_dict e)"
proof -
  have "log_dict (fst (reset r e)) = reset_log_dict (log_dict e)"
    by (simp add: reset_def Let_def split: option.splits)
  moreover have "\<forall>key v. d key = Some v \<longrightarrow> startswith key ''androidenv_episode'' \<longrightarrow>
       reset_log_dict d key = Some 0"
    by (simp add: reset_log_dict_def)
  moreover have "\<forall>key. \<not> startswith key ''androidenv_episode'' \<longrightarrow> reset_log_dict d key = d key"
    by (simp add: reset_log_dict_def)
  ultimately show ?thesis
    by (simp add: dom_reset_log_dict startswith_def steps_key_def type_key_def)
qed

text \<open>The theorem at a dictionary of three counters.\<close>

theorem begin_episode_scopes_witness:
  "reset_log_dict [''androidenv_episode_steps'' \<mapsto> 3, ''androidenv_total_steps'' \<mapsto> 7,
                   ''restart_count'' \<mapsto> 2] ''androidenv_episode_steps'' = Some 0
   \<and> reset_log_dict [''androidenv_episode_steps'' \<mapsto> 3, ''androidenv_total_steps'' \<mapsto> 7,
                   ''restart_count'' \<mapsto> 2] ''androidenv_total_steps'' = Some 7
   \<and> reset_log_dict [''androidenv_episode_steps'' \<mapsto> 3, ''androidenv_total_steps'' \<mapsto> 7,
                   ''restart_count'' \<mapsto> 2] ''restart_count'' = Some 2"
proof -
  let ?d = "[''androidenv_episode_steps'' \<mapsto> 3, ''androidenv_total_steps'' \<mapsto> 7,
             ''restart_count'' \<mapsto> (2::real)]"
  note t = begin_episode_scopes [of ?d]
  have a: "reset_log_dict ?d ''androidenv_episode_steps'' = Some 0"
    by (rule t [THEN conjunct1, rule_format, of "''androidenv_episode_steps''" 3])
       (simp_all add: startswith_def)
  have b: "reset_log_dict ?d ''androidenv_total_steps'' = ?d ''androidenv_total_steps''"
    by (rule t [THEN conjunct2, THEN conjunct1, rule_format]) (simp add: startswith_def)
  have c: "reset_log_dict ?d ''restart_count'' = ?d ''restart_count''"
    by (rule t [THEN conjunct2, THEN conjunct1, rule_format]) (simp add: startswith_def)
  from a b c show ?thesis by simp
qed

section \<open>Calls of close\<close>

lemma collab_calls_close:
  "collab_calls (close e) = collab_calls e @ (if has_coordinator e then [Coordinator_close] else [])"
  by (simp add: close_def called_def)

lemma close_has_coordinator [simp]: "has_coordinator (close e) = has_coordinator e"
  by (simp add: close_def called_def)

lemma funpow_close_has_coordinator [simp]: "has_coordinator ((close ^^ n) e) = has_coordinator e"
  by (induction n) simp_all

text \<open>
  \<open>close\<close> does not look at \<open>_is_closed\<close>: each call on an object that has its
  coordinator calls the coordinator's \<open>close\<close> once more.  The flag guards the implicit
  call only: \<open>__del__\<close> calls \<open>close\<close> when the object is not closed yet, and does
  nothing after an explicit \<open>close\<close>.
\<close>

lemma funpow_close_calls:
  "count_list (collab_calls ((close ^^ n) e)) Coordinator_close =
     count_list (collab_calls e) Coordinator_close + (if has_coordinator e then n else 0)"
  by (induction n) (simp_all add: collab_calls_close)

lemma del_after_close:
  "is_closed (close e) \<and> del (close e) = close e \<and> del e = (if is_closed e then e else close e)"
  by (simp add: del_def close_def)

text \<open>
  Claim C5.  The claim is that, however many times \<open>close\<close> is called on one object, the
  coordinator's \<open>close\<close> is called exactly once.  The code does otherwise: \<open>close\<close> sets
  \<open>_is_closed\<close> and never tests it, so two calls of \<open>close\<close> on a new object call the
  coordinator's \<open>close\<close> twice.  The other way to the same shutdown, \<open>__del__\<close>, does
  test the flag: after one \<open>close\<close> it calls the coordinator no more.
\<close>

theorem close_twice_calls_coordinator_twice:
  "count_list (collab_calls (close (close (init [(''TOUCH'', 0), (''LIFT'', 1), (''REPEAT'', 2)]))))
     Coordinator_close = 2
   \<and> count_list (collab_calls (del (close (init [(''TOUCH'', 0), (''LIFT'', 1), (''REPEAT'', 2)]))))
     Coordinator_close = 1"
  by (simp add: close_def del_def called_def init_def)

section \<open>The branches of step\<close>

text \<open>
  The definitions a closed instance is evaluated with.
\<close>

lemmas eval_defs = step_def step_execute_def reset_def Let_def called_def init_def init_log_dict_def
  log_prefixes_def steps_key_def type_key_def reset_log_dict_def startswith_def update_log_dict_def
  ActionType_of_def item_def dm_env_termination_def

text \<open>
  \<open>step\<close> on each of its three early branches: a restart, a timeout, and neither.
\<close>

lemma step_restart_eq:
  "should_restart r \<Longrightarrow>
     step ats r a e =
       (case log_dict e ''restart_count'' of
          None \<Rightarrow> (called Coordinator_should_restart (e\<lparr>latest_action := a\<rparr>), Inl KeyError)
        | Some c \<Rightarrow>
            (e\<lparr>latest_action := a, log_dict := (log_dict e)(''restart_count'' \<mapsto> c + 1),
               reset_next_step := True, latest_step_type := LAST,
               collab_calls := collab_calls e
                 @ [Coordinator_should_restart, Coordinator_restart_simulator]\<rparr>,
             Inr \<lparr>step_type = LAST, reward = 0, discount = 0,
                  observation = latest_observation e\<rparr>))"
  by (simp add: step_def Let_def called_def dm_env_termination_def split: option.splits)

lemma step_timeout_eq:
  "\<not> should_restart r \<Longrightarrow> check_timeout r \<Longrightarrow>
     step ats r a e =
       (case log_dict e ''reset_count_step_timeout'' of
          None \<Rightarrow> (called Coordinator_check_timeout
                     (called Coordinator_should_restart (e\<lparr>latest_action := a\<rparr>)), Inl KeyError)
        | Some c \<Rightarrow>
            (e\<lparr>latest_action := a,
               log_dict := (log_dict e)(''reset_count_step_timeout'' \<mapsto> c + 1),
               reset_next_step := True, latest_step_type := LAST,
               collab_calls := collab_calls e
                 @ [Coordinator_should_restart, Coordinator_check_timeout]\<rparr>,
             Inr \<lparr>step_type = LAST, reward = 0, discount = 0,
                  observation = latest_observation e\<rparr>))"
  by (simp add: step_def Let_def called_def dm_env_termination_def split: option.splits)

lemma step_quiet:
  "\<not> should_restart r \<Longrightarrow> \<not> check_timeout r \<Longrightarrow>
     step ats r a e =
       (if reset_next_step e
        then reset r (called Coordinator_check_timeout
               (called Coordinator_should_restart (e\<lparr>latest_action := a\<rparr>)))
        else step_execute ats r a (called Coordinator_check_timeout
               (called Coordinator_should_restart (e\<lparr>latest_action := a\<rparr>))))"
  by (simp add: step_def Let_def called_def)

section \<open>Runs\<close>

lemma exec_append: "exec ats (cs @ ds) e = exec ats ds (exec ats cs e)"
  by (induction cs arbitrary: e) simp_all

lemma run_append: "run ats (cs @ ds) e = run ats cs e @ run ats ds (exec ats cs e)"
  by (induction cs arbitrary: e) simp_all

lemma length_run [simp]: "length (run ats cs e) = length cs"
  by (induction cs arbitrary: e) simp_all

lemma run_nth:
  "i < length cs \<Longrightarrow> run ats cs e ! i = snd (do_call ats (cs ! i) (exec ats (take i cs) e))"
proof (induction cs arbitrary: e i)
  case Nil
  then show ?case by simp
next
  case (Cons c cs)
  then show ?case by (cases i) simp_all
qed

lemma exec_take_Suc:
  "i < length cs \<Longrightarrow> exec ats (take (Suc i) cs) e = fst (do_call ats (cs ! i) (exec ats (take i cs) e))"
  by (simp add: take_Suc_conv_app_nth exec_append)

lemma run_take: "run ats (take n cs) e = take n (run ats cs e)"
proof (induction cs arbitrary: e n)
  case Nil
  then show ?case by simp
next
  case (Cons c cs)
  then show ?case by (cases n) simp_all
qed

lemma run_drop: "run ats (drop n cs) (exec ats (take n cs) e) = drop n (run ats cs e)"
proof (induction cs arbitrary: e n)
  case Nil
  then show ?case by simp
next
  case (Cons c cs)
  then show ?case by (cases n) simp_all
qed

text \<open>
  A call that returns a \<open>TimeStep\<close> returns the cached observation.
\<close>

lemma reset_observation:
  "snd (reset r e) = Inr ts \<Longrightarrow> observation ts = latest_observation (fst (reset r e))"
  by (auto simp add: reset_def Let_def called_def split: option.splits)

lemma step_execute_observation:
  "snd (step_execute ats r a e) = Inr ts \<Longrightarrow>
     observation ts = latest_observation (fst (step_execute ats r a e))"
  by (auto simp add: step_execute_def Let_def called_def split: option.splits sum.splits prod.splits)

lemma step_observation:
  "snd (step ats r a e) = Inr ts \<Longrightarrow> observation ts = latest_observation (fst (step ats r a e))"
  by (auto simp add: step_def Let_def called_def dm_env_termination_def reset_observation
      step_execute_observation split: option.splits if_splits)

lemma do_call_observation:
  "snd (do_call ats c e) = Inr ts \<Longrightarrow> observation ts = latest_observation (fst (do_call ats c e))"
  by (cases c) (simp_all add: reset_observation step_observation)

lemma last_run_observation:
  "cs \<noteq> [] \<Longrightarrow> last (run ats cs e) = Inr ts \<Longrightarrow> observation ts = latest_observation (exec ats cs e)"
proof (induction cs arbitrary: e rule: rev_induct)
  case Nil
  then show ?case by simp
next
  case (snoc c cs)
  then show ?case
    by (simp add: run_append exec_append do_call_observation)
qed

section \<open>A step at which the coordinator asks for a restart\<close>

text \<open>
  Claim C3.  After any sequence of calls on a new object, a call of \<open>step\<close> at which
  \<open>should_restart()\<close> is true returns a \<open>TimeStep\<close> of type \<open>LAST\<close> with reward
  \<open>0.0\<close> and discount \<open>0.0\<close> whose observation is the cached one, unchanged; when the
  call before returned a \<open>TimeStep\<close>, that is the observation it returned.  The call
  changes the object in these ways only: the action is stored, \<open>restart_count\<close> is
  incremented by one, the reset is pending, the step type is \<open>LAST\<close>, and the
  coordinator was asked \<open>should_restart\<close> and told \<open>restart_simulator\<close>.  So no
  observation is computed and no counter of steps or of action types changes.
\<close>

theorem restart_returns_cached_observation:
  "should_restart r \<Longrightarrow>
     ''restart_count'' \<in> dom (log_dict (exec ats cs (init ats)))
     \<and> step ats r action (exec ats cs (init ats)) =
         ((exec ats cs (init ats))
            \<lparr>latest_action := action,
             log_dict := (log_dict (exec ats cs (init ats)))
               (''restart_count'' \<mapsto> the (log_dict (exec ats cs (init ats)) ''restart_count'') + 1),
             reset_next_step := True,
             latest_step_type := LAST,
             collab_calls := collab_calls (exec ats cs (init ats))
               @ [Coordinator_should_restart, Coordinator_restart_simulator]\<rparr>,
          Inr \<lparr>step_type = LAST, reward = 0, discount = 0,
               observation = latest_observation (exec ats cs (init ats))\<rparr>)
     \<and> (\<forall>ts. cs \<noteq> [] \<longrightarrow> last (run ats cs (init ats)) = Inr ts \<longrightarrow>
           latest_observation (exec ats cs (init ats)) = observation ts)"
proof -
  assume r: "should_restart r"
  define e where "e = exec ats cs (init ats)"
  have k: "''restart_count'' \<in> dom (log_dict e)"
    unfolding e_def by (simp add: dom_reachable ledger_keys_def)
  then obtain c where c: "log_dict e ''restart_count'' = Some c"
    by auto
  have "step ats r action e =
         (e\<lparr>latest_action := action,
             log_dict := (log_dict e)(''restart_count'' \<mapsto> the (log_dict e ''restart_count'') + 1),
             reset_next_step := True,
             latest_step_type := LAST,
             collab_calls := collab_calls e @ [Coordinator_should_restart, Coordinator_restart_simulator]\<rparr>,
          Inr \<lparr>step_type = LAST, reward = 0, discount = 0, observation = latest_observation e\<rparr>)"
    using r c by (simp add: step_def Let_def called_def dm_env_termination_def)
  moreover have "\<forall>ts. cs \<noteq> [] \<longrightarrow> last (run ats cs (init ats)) = Inr ts \<longrightarrow>
           latest_observation e = observation ts"
    unfolding e_def using last_run_observation [of cs ats "init ats"] by auto
  ultimately show ?thesis
    using k unfolding e_def by blast
qed

text \<open>
  The theorem at a restart that follows a reset.
\<close>

theorem restart_returns_cached_observation_witness:
  "should_restart (quiet\<lparr>should_restart := True\<rparr>)
   \<and> last (run sample_types [Reset quiet] (init sample_types)) =
       Inr \<lparr>step_type = FIRST, reward = 0, discount = 0, observation = sample_obs\<rparr>
   \<and> snd (step sample_types (quiet\<lparr>should_restart := True\<rparr>) sample_action
          (exec sample_types [Reset quiet] (init sample_types))) =
       Inr \<lparr>step_type = LAST, reward = 0, discount = 0, observation = sample_obs\<rparr>"
proof -
  let ?e = "exec sample_types [Reset quiet] (init sample_types)"
  have r: "should_restart (quiet\<lparr>should_restart := True\<rparr>)"
    by simp
  have l: "last (run sample_types [Reset quiet] (init sample_types)) =
       Inr \<lparr>step_type = FIRST, reward = 0, discount = 0, observation = sample_obs\<rparr>"
    by (simp add: reset_def Let_def called_def)
  have n: "[Reset quiet] \<noteq> []"
    by simp
  note w = restart_returns_cached_observation [OF r, of sample_types "[Reset quiet]" sample_action]
  from w [THEN conjunct2, THEN conjunct2, rule_format, OF n l]
  have o: "latest_observation ?e = sample_obs"
    by simp
  from w [THEN conjunct2, THEN conjunct1]
  have "snd (step sample_types (quiet\<lparr>should_restart := True\<rparr>) sample_action ?e) =
       Inr \<lparr>step_type = LAST, reward = 0, discount = 0, observation = latest_observation ?e\<rparr>"
    by simp
  with r o l show ?thesis
    by simp
qed

section \<open>A step while the reset is pending\<close>

text \<open>
  Claim C2.  When the reset is pending and neither \<open>should_restart()\<close> nor
  \<open>check_timeout()\<close> is true, \<open>step\<close> returns, for every action, what \<open>reset\<close> returns
  on the same object with the same answers of the collaborators, and leaves the counters
  as \<open>reset\<close> leaves them: the episode's counters reset, nothing counted for the action.
  The two objects differ in the history of calls only, where \<open>step\<close> has asked the two
  questions first; the action is never passed to \<open>execute_action\<close>.
\<close>

theorem step_redirects_to_reset:
  "\<not> should_restart r \<Longrightarrow> \<not> check_timeout r \<Longrightarrow> reset_next_step e \<Longrightarrow>
     snd (step ats r action e) = snd (reset r e)
     \<and> log_dict (fst (step ats r action e)) = log_dict (fst (reset r e))
     \<and> log_dict (fst (step ats r action e)) = reset_log_dict (log_dict e)
     \<and> fst (step ats r action e) =
         (fst (reset r e))
           \<lparr>collab_calls := collab_calls e
              @ [Coordinator_should_restart, Coordinator_check_timeout, Coordinator_reset,
                 Coordinator_execute_action None, TaskManager_get_current_extras]\<rparr>"
  by (simp add: step_def reset_def Let_def called_def split: option.splits)

text \<open>
  The theorem at the first \<open>step\<close> on a new object, whose reset is pending.
\<close>

theorem step_redirects_to_reset_witness:
  "\<not> should_restart quiet \<and> \<not> check_timeout quiet \<and> reset_next_step (init sample_types)
   \<and> snd (step sample_types quiet sample_action (init sample_types)) =
       snd (reset quiet (init sample_types))
   \<and> snd (reset quiet (init sample_types)) =
       Inr \<lparr>step_type = FIRST, reward = 0, discount = 0, observation = sample_obs\<rparr>
   \<and> log_dict (fst (step sample_types quiet sample_action (init sample_types)))
        ''androidenv_total_action_type_LIFT'' = Some 0"
proof -
  have h: "\<not> should_restart quiet" "\<not> check_timeout quiet" "reset_next_step (init sample_types)"
    by (simp_all add: init_def)
  have l: "log_dict (fst (reset quiet (init sample_types))) ''androidenv_total_action_type_LIFT'' = Some 0"
    by (simp add: reset_def Let_def called_def init_def init_log_dict_def log_prefixes_def
        steps_key_def type_key_def reset_log_dict_def startswith_def)
  have o: "snd (reset quiet (init sample_types)) =
       Inr \<lparr>step_type = FIRST, reward = 0, discount = 0, observation = sample_obs\<rparr>"
    by (simp add: reset_def Let_def called_def init_def)
  from step_redirects_to_reset [OF h, of sample_types sample_action] h l o
  show ?thesis by simp
qed

section \<open>The cached action\<close>

lemma reset_latest_action: "latest_action (fst (reset r e)) = Map.empty"
  by (simp add: reset_def Let_def called_def split: option.splits)

lemma step_execute_latest_action: "latest_action (fst (step_execute ats r a e)) = latest_action e"
  by (simp add: step_execute_def Let_def called_def split: option.splits sum.splits prod.splits)

lemma step_latest_action:
  "latest_action (fst (step ats r action e)) =
     (if \<not> should_restart r \<and> \<not> check_timeout r \<and> reset_next_step e then Map.empty else action)"
  by (simp add: step_def Let_def called_def reset_latest_action step_execute_latest_action
      split: option.splits)

lemma step_terminated_calls:
  "should_restart r \<or> check_timeout r \<Longrightarrow>
     drop (length (collab_calls e)) (collab_calls (fst (step ats r action e))) \<in>
       {[Coordinator_should_restart], [Coordinator_should_restart, Coordinator_restart_simulator],
        [Coordinator_should_restart, Coordinator_check_timeout]}"
  by (auto simp add: step_def Let_def called_def split: option.splits)

lemma step_terminated_counters:
  "should_restart r \<or> check_timeout r \<Longrightarrow> k \<noteq> ''restart_count'' \<Longrightarrow>
     k \<noteq> ''reset_count_step_timeout'' \<Longrightarrow> log_dict (fst (step ats r action e)) k = log_dict e k"
  by (auto simp add: step_def Let_def called_def split: option.splits)

text \<open>
  Claim C9.  \<open>step\<close> stores the action before anything else, so whatever branch it
  takes and whether or not it raises, \<open>raw_action\<close> is the action afterwards, except
  when the call went on to \<open>reset\<close>, which clears it: then it is the empty mapping.  In
  particular, after a step ended by a restart or a timeout \<open>raw_action\<close> is the action,
  although \<open>execute_action\<close> was not called during the step and no counter other than
  \<open>restart_count\<close> and \<open>reset_count_step_timeout\<close> changed.
\<close>

theorem step_caches_action:
  "raw_action (fst (step ats r action e)) =
     (if \<not> should_restart r \<and> \<not> check_timeout r \<and> reset_next_step e then Map.empty else action)
   \<and> (should_restart r \<or> check_timeout r \<longrightarrow>
        raw_action (fst (step ats r action e)) = action
        \<and> (\<forall>x. Coordinator_execute_action x \<notin>
               set (drop (length (collab_calls e)) (collab_calls (fst (step ats r action e)))))
        \<and> (\<forall>k. k \<noteq> ''restart_count'' \<longrightarrow> k \<noteq> ''reset_count_step_timeout'' \<longrightarrow>
               log_dict (fst (step ats r action e)) k = log_dict e k))"
proof -
  have a: "raw_action (fst (step ats r action e)) =
     (if \<not> should_restart r \<and> \<not> check_timeout r \<and> reset_next_step e then Map.empty else action)"
    by (simp add: raw_action_def step_latest_action)
  have b: "\<forall>x. Coordinator_execute_action x \<notin>
             set (drop (length (collab_calls e)) (collab_calls (fst (step ats r action e))))"
    if "should_restart r \<or> check_timeout r"
    using step_terminated_calls [OF that, of e ats action] by auto
  have c: "\<forall>k. k \<noteq> ''restart_count'' \<longrightarrow> k \<noteq> ''reset_count_step_timeout'' \<longrightarrow>
             log_dict (fst (step ats r action e)) k = log_dict e k"
    if "should_restart r \<or> check_timeout r"
    using step_terminated_counters [OF that] by blast
  from a b c show ?thesis
    by auto
qed

text \<open>
  The theorem at a step ended by a timeout, and at a step that went on to \<open>reset\<close>.
\<close>

theorem step_caches_action_witness:
  "raw_action (fst (step sample_types (quiet\<lparr>check_timeout := True\<rparr>) sample_action
      (exec sample_types [Reset quiet] (init sample_types)))) = sample_action
   \<and> log_dict (fst (step sample_types (quiet\<lparr>check_timeout := True\<rparr>) sample_action
      (exec sample_types [Reset quiet] (init sample_types)))) ''androidenv_episode_steps'' = Some 0
   \<and> raw_action (fst (step sample_types quiet sample_action (init sample_types))) = Map.empty"
proof -
  let ?r = "quiet\<lparr>check_timeout := True\<rparr>"
  let ?e = "exec sample_types [Reset quiet] (init sample_types)"
  have t: "should_restart ?r \<or> check_timeout ?r"
    by simp
  note w = step_caches_action [of sample_types ?r sample_action ?e]
  from t w have a: "raw_action (fst (step sample_types ?r sample_action ?e)) = sample_action"
    by blast
  from t w have "\<forall>k. k \<noteq> ''restart_count'' \<longrightarrow> k \<noteq> ''reset_count_step_timeout'' \<longrightarrow>
      log_dict (fst (step sample_types ?r sample_action ?e)) k = log_dict ?e k"
    by blast
  then have "log_dict (fst (step sample_types ?r sample_action ?e)) ''androidenv_episode_steps'' =
      log_dict ?e ''androidenv_episode_steps''"
    by simp
  moreover have "log_dict ?e ''androidenv_episode_steps'' = Some 0"
    by (simp add: reset_def Let_def called_def init_def init_log_dict_def log_prefixes_def
        steps_key_def type_key_def reset_log_dict_def startswith_def)
  moreover have "raw_action (fst (step sample_types quiet sample_action (init sample_types))) = Map.empty"
    using step_caches_action [of sample_types quiet sample_action "init sample_types"]
    by (simp add: init_def)
  ultimately show ?thesis
    using a by simp
qed

section \<open>The cached observation and task extras\<close>

lemma reset_caches:
  "latest_observation (fst (reset r e)) =
     (case execute_action r of None \<Rightarrow> latest_observation e | Some obs \<Rightarrow> obs)"
  "latest_extras (fst (reset r e)) =
     (case get_current_extras r of None \<Rightarrow> latest_extras e | Some extras \<Rightarrow> extras)"
  "snd (reset r e) = Inl err \<longleftrightarrow> get_current_extras r = None \<and> err = AttributeError"
  by (auto simp add: reset_def Let_def called_def split: option.splits)

lemma step_execute_caches:
  "snd (step_execute ats r a e) = Inr ts \<Longrightarrow>
     get_current_extras r = Some (latest_extras (fst (step_execute ats r a e)))
     \<and> latest_observation (fst (step_execute ats r a e)) =
         (case execute_action r of None \<Rightarrow> latest_observation e | Some obs \<Rightarrow> obs)"
  by (auto simp add: step_execute_def Let_def called_def split: option.splits sum.splits prod.splits)

lemma step_execute_no_extras:
  "get_current_extras r = None \<Longrightarrow> isl (snd (step_execute ats r a e))
     \<and> latest_extras (fst (step_execute ats r a e)) = latest_extras e"
  by (auto simp add: step_execute_def Let_def called_def split: option.splits sum.splits prod.splits)

lemma step_returned_caches:
  assumes "\<not> should_restart r" "\<not> check_timeout r" "snd (step ats r a e) = Inr ts"
  shows "get_current_extras r = Some (latest_extras (fst (step ats r a e)))
     \<and> latest_observation (fst (step ats r a e)) =
         (case execute_action r of None \<Rightarrow> latest_observation e | Some obs \<Rightarrow> obs)"
proof (cases "reset_next_step e")
  case True
  define e3 where "e3 = called Coordinator_check_timeout
               (called Coordinator_should_restart (e\<lparr>latest_action := a\<rparr>))"
  have s: "step ats r a e = reset r e3"
    using assms(1,2) True by (simp add: step_quiet e3_def)
  have o: "latest_observation e3 = latest_observation e" "latest_extras e3 = latest_extras e"
    by (simp_all add: e3_def called_def)
  from assms(3) s have "snd (reset r e3) = Inr ts" by simp
  then have "get_current_extras r \<noteq> None"
    using reset_caches(3) [of r e3 AttributeError] by auto
  then show ?thesis
    using reset_caches(1,2) [of r e3] s o by (auto split: option.splits)
next
  case False
  define e3 where "e3 = called Coordinator_check_timeout
               (called Coordinator_should_restart (e\<lparr>latest_action := a\<rparr>))"
  have s: "step ats r a e = step_execute ats r a e3"
    using assms(1,2) False by (simp add: step_quiet e3_def)
  have o: "latest_observation e3 = latest_observation e"
    by (simp add: e3_def called_def)
  from assms(3) s have "snd (step_execute ats r a e3) = Inr ts" by simp
  from step_execute_caches [OF this] s o show ?thesis by (simp split: option.splits)
qed

lemma step_no_extras:
  assumes "\<not> should_restart r" "\<not> check_timeout r" "get_current_extras r = None"
  shows "isl (snd (step ats r a e)) \<and> latest_extras (fst (step ats r a e)) = latest_extras e"
proof -
  define e3 where "e3 = called Coordinator_check_timeout
               (called Coordinator_should_restart (e\<lparr>latest_action := a\<rparr>))"
  have o: "latest_extras e3 = latest_extras e"
    by (simp add: e3_def called_def)
  show ?thesis
  proof (cases "reset_next_step e")
    case True
    have s: "step ats r a e = reset r e3"
      using assms(1,2) True by (simp add: step_quiet e3_def)
    have "snd (reset r e3) = Inl AttributeError"
      using reset_caches(3) [of r e3 AttributeError] assms(3) by simp
    then show ?thesis
      using reset_caches(2) [of r e3] assms(3) s o by simp
  next
    case False
    have s: "step ats r a e = step_execute ats r a e3"
      using assms(1,2) False by (simp add: step_quiet e3_def)
    from step_execute_no_extras [OF assms(3), of ats a e3] s o show ?thesis by simp
  qed
qed

lemma step_terminated_caches:
  "should_restart r \<or> check_timeout r \<Longrightarrow>
     latest_extras (fst (step ats r a e)) = latest_extras e
     \<and> latest_observation (fst (step ats r a e)) = latest_observation e"
  by (auto simp add: step_def Let_def called_def split: option.splits)

lemma step_execute_frame:
  "(latest_observation (fst (step_execute ats r a e)) = latest_observation e
      \<or> execute_action r = Some (latest_observation (fst (step_execute ats r a e))))
   \<and> (latest_extras (fst (step_execute ats r a e)) = latest_extras e
      \<or> get_current_extras r = Some (latest_extras (fst (step_execute ats r a e))))"
  by (auto simp add: step_execute_def Let_def called_def split: option.splits sum.splits prod.splits)

lemma reset_frame:
  "(latest_observation (fst (reset r e)) = latest_observation e
      \<or> execute_action r = Some (latest_observation (fst (reset r e))))
   \<and> (latest_extras (fst (reset r e)) = latest_extras e
      \<or> get_current_extras r = Some (latest_extras (fst (reset r e))))"
  by (auto simp add: reset_def Let_def called_def split: option.splits)

lemma step_frame:
  "(latest_observation (fst (step ats r a e)) = latest_observation e
      \<or> execute_action r = Some (latest_observation (fst (step ats r a e))))
   \<and> (latest_extras (fst (step ats r a e)) = latest_extras e
      \<or> get_current_extras r = Some (latest_extras (fst (step ats r a e))))"
proof (cases "should_restart r \<or> check_timeout r")
  case True
  from step_terminated_caches [OF this] show ?thesis by simp
next
  case False
  define e3 where "e3 = called Coordinator_check_timeout
               (called Coordinator_should_restart (e\<lparr>latest_action := a\<rparr>))"
  have o: "latest_observation e3 = latest_observation e" "latest_extras e3 = latest_extras e"
    by (simp_all add: e3_def called_def)
  show ?thesis
  proof (cases "reset_next_step e")
    case True
    have s: "step ats r a e = reset r e3"
      using False True by (simp add: step_quiet e3_def)
    show ?thesis
      using reset_frame [of r e3] by (simp only: s o)
  next
    case no: False
    have s: "step ats r a e = step_execute ats r a e3"
      using False no by (simp add: step_quiet e3_def)
    show ?thesis
      using step_execute_frame [of ats r a e3] by (simp only: s o)
  qed
qed

text \<open>
  Claim C4.  In \<open>reset\<close> and in \<open>step\<close>, the cached task extras, like the cached
  observation, are replaced only by what the provider returns, and only when that is not
  \<open>None\<close>; otherwise the value cached before is still there after the call.  After
  \<open>reset\<close> each cache holds the provider's result when there is one, and the former value
  when there is none.  After \<open>step\<close> each cache either is as before or holds the
  provider's result; when the provider returns \<open>None\<close> it is as before; a step not ended
  by a restart or a timeout that returns a \<open>TimeStep\<close> leaves in each cache the
  provider's result when there is one and the former value when there is none; and a step
  ended by a restart or a timeout leaves both caches as they were.
\<close>

theorem caches_replaced_by_results_only:
  "latest_observation (fst (reset r e)) =
     (case execute_action r of None \<Rightarrow> latest_observation e | Some obs \<Rightarrow> obs)
   \<and> latest_extras (fst (reset r e)) =
     (case get_current_extras r of None \<Rightarrow> latest_extras e | Some extras \<Rightarrow> extras)
   \<and> (latest_observation (fst (step ats r a e)) = latest_observation e
      \<or> execute_action r = Some (latest_observation (fst (step ats r a e))))
   \<and> (latest_extras (fst (step ats r a e)) = latest_extras e
      \<or> get_current_extras r = Some (latest_extras (fst (step ats r a e))))
   \<and> (execute_action r = None \<longrightarrow>
        latest_observation (fst (step ats r a e)) = latest_observation e)
   \<and> (get_current_extras r = None \<longrightarrow>
        latest_extras (fst (step ats r a e)) = latest_extras e)
   \<and> (\<not> should_restart r \<longrightarrow> \<not> check_timeout r \<longrightarrow>
        (\<forall>ts. snd (step ats r a e) = Inr ts \<longrightarrow>
           latest_observation (fst (step ats r a e)) =
             (case execute_action r of None \<Rightarrow> latest_observation e | Some obs \<Rightarrow> obs)
           \<and> latest_extras (fst (step ats r a e)) =
             (case get_current_extras r of None \<Rightarrow> latest_extras e | Some extras \<Rightarrow> extras)))
   \<and> (should_restart r \<or> check_timeout r \<longrightarrow>
        latest_extras (fst (step ats r a e)) = latest_extras e
        \<and> latest_observation (fst (step ats r a e)) = latest_observation e)"
proof -
  note f = step_frame [of ats r a e]
  have a: "execute_action r = None \<longrightarrow>
        latest_observation (fst (step ats r a e)) = latest_observation e"
    using f by auto
  have b: "get_current_extras r = None \<longrightarrow>
        latest_extras (fst (step ats r a e)) = latest_extras e"
    using f by auto
  have c: "\<not> should_restart r \<longrightarrow> \<not> check_timeout r \<longrightarrow>
        (\<forall>ts. snd (step ats r a e) = Inr ts \<longrightarrow>
           latest_observation (fst (step ats r a e)) =
             (case execute_action r of None \<Rightarrow> latest_observation e | Some obs \<Rightarrow> obs)
           \<and> latest_extras (fst (step ats r a e)) =
             (case get_current_extras r of None \<Rightarrow> latest_extras e | Some extras \<Rightarrow> extras))"
  proof (intro impI allI)
    fix ts
    assume h: "\<not> should_restart r" "\<not> check_timeout r" "snd (step ats r a e) = Inr ts"
    from step_returned_caches [OF h] show
      "latest_observation (fst (step ats r a e)) =
             (case execute_action r of None \<Rightarrow> latest_observation e | Some obs \<Rightarrow> obs)
           \<and> latest_extras (fst (step ats r a e)) =
             (case get_current_extras r of None \<Rightarrow> latest_extras e | Some extras \<Rightarrow> extras)"
      by (auto split: option.splits)
  qed
  have d: "should_restart r \<or> check_timeout r \<longrightarrow>
        latest_extras (fst (step ats r a e)) = latest_extras e
        \<and> latest_observation (fst (step ats r a e)) = latest_observation e"
    using step_terminated_caches [of r ats a e] by blast
  from reset_caches(1,2) [of r e] f a b c d show ?thesis
    by (intro conjI) simp_all
qed

text \<open>
  The theorem at a step that is executed with a provider that returns neither an
  observation nor task extras, after a \<open>reset\<close> that cached both: both are still cached.
  And at a step that is executed and returns: the task extras are the provider's.
\<close>

theorem caches_replaced_by_results_only_witness:
  "latest_extras (fst (step sample_types (quiet\<lparr>execute_action := None, get_current_extras := None\<rparr>)
      sample_action
      (exec sample_types [Reset (quiet\<lparr>get_current_extras := Some sample_obs\<rparr>)] (init sample_types))))
     = sample_obs
   \<and> latest_observation (fst (step sample_types (quiet\<lparr>execute_action := None, get_current_extras := None\<rparr>)
      sample_action
      (exec sample_types [Reset (quiet\<lparr>get_current_extras := Some sample_obs\<rparr>)] (init sample_types))))
     = sample_obs
   \<and> latest_extras (fst (step sample_types (quiet\<lparr>get_current_extras := Some sample_obs\<rparr>) sample_action
      (exec sample_types [Reset quiet] (init sample_types)))) = sample_obs"
proof -
  let ?n = "quiet\<lparr>execute_action := None, get_current_extras := None\<rparr>"
  let ?first = "exec sample_types [Reset (quiet\<lparr>get_current_extras := Some sample_obs\<rparr>)]
      (init sample_types)"
  note n = caches_replaced_by_results_only [of ?n ?first sample_types sample_action]
  have c: "latest_extras ?first = sample_obs" "latest_observation ?first = sample_obs"
    by (simp_all add: eval_defs)
  have "execute_action ?n = None" "get_current_extras ?n = None"
    by simp_all
  with n have u: "latest_extras (fst (step sample_types ?n sample_action ?first)) = latest_extras ?first"
      "latest_observation (fst (step sample_types ?n sample_action ?first)) = latest_observation ?first"
    by blast+
  let ?r = "quiet\<lparr>get_current_extras := Some sample_obs\<rparr>"
  let ?e = "exec sample_types [Reset quiet] (init sample_types)"
  note w = caches_replaced_by_results_only [of ?r ?e sample_types sample_action]
  have q: "\<not> should_restart ?r" "\<not> check_timeout ?r"
    by simp_all
  have s: "snd (step sample_types ?r sample_action ?e) =
      Inr \<lparr>step_type = MID, reward = 1, discount = 1, observation = sample_obs\<rparr>"
    by (simp add: eval_defs)
  from w q s have "latest_extras (fst (step sample_types ?r sample_action ?e)) =
      (case get_current_extras ?r of None \<Rightarrow> latest_extras ?e | Some extras \<Rightarrow> extras)"
    by blast
  then have "latest_extras (fst (step sample_types ?r sample_action ?e)) = sample_obs"
    by simp
  with u c show ?thesis
    by simp
qed

section \<open>The sequence of step types\<close>

lemma reset_returned_type:
  "returned_type (snd (reset r e)) = (if get_current_extras r = None then None else Some FIRST)"
  by (simp add: reset_def Let_def called_def returned_type_def split: option.splits)

lemma reset_pending:
  "reset_next_step (fst (reset r e)) = (if get_current_extras r = None then reset_next_step e else False)"
  by (simp add: reset_def Let_def called_def split: option.splits)

lemma step_execute_pending:
  "snd (step_execute ats r a e) = Inr ts \<Longrightarrow>
     reset_next_step (fst (step_execute ats r a e)) = (step_type ts = LAST) \<and> step_type ts \<noteq> FIRST"
  by (auto simp add: step_execute_def Let_def called_def
      split: option.splits sum.splits prod.splits if_splits)

lemma step_terminated_type:
  assumes "should_restart r \<or> check_timeout r"
    and "''restart_count'' \<in> dom (log_dict e)" "''reset_count_step_timeout'' \<in> dom (log_dict e)"
  shows "returned_type (snd (step ats r a e)) = Some LAST"
proof (cases "should_restart r")
  case True
  with assms(2) show ?thesis
    by (auto simp add: step_restart_eq returned_type_def)
next
  case False
  with assms(1) have "check_timeout r" by simp
  with False assms(3) show ?thesis
    by (auto simp add: step_timeout_eq returned_type_def)
qed

lemma step_terminated_pending:
  assumes "should_restart r \<or> check_timeout r"
  shows "reset_next_step (fst (step ats r a e)) \<or>
     reset_next_step (fst (step ats r a e)) = reset_next_step e"
proof (cases "should_restart r")
  case True
  then show ?thesis
    by (simp add: step_restart_eq called_def split: option.splits)
next
  case False
  with assms have "check_timeout r" by simp
  with False show ?thesis
    by (simp add: step_timeout_eq called_def split: option.splits)
qed

lemma step_terminated_returns:
  assumes "should_restart r \<or> check_timeout r" "snd (step ats r a e) = Inr ts"
  shows "reset_next_step (fst (step ats r a e)) \<and> step_type ts = LAST"
proof (cases "should_restart r")
  case True
  with assms(2) show ?thesis
    by (auto simp add: step_restart_eq split: option.splits)
next
  case False
  with assms(1) have "check_timeout r" by simp
  with False assms(2) show ?thesis
    by (auto simp add: step_timeout_eq split: option.splits)
qed

text \<open>
  A call that returns \<open>LAST\<close> leaves the reset pending.
\<close>

lemma do_call_LAST_pending:
  assumes "returned_type (snd (do_call ats c e)) = Some LAST"
  shows "reset_next_step (fst (do_call ats c e))"
proof (cases c)
  case (Reset r)
  with assms show ?thesis
    by (simp add: reset_returned_type split: if_splits)
next
  case (Step r a)
  from assms obtain ts where ts: "snd (do_call ats c e) = Inr ts" "step_type ts = LAST"
    by (auto simp add: returned_type_def split: sum.splits)
  show ?thesis
  proof (cases "should_restart r \<or> check_timeout r")
    case True
    with ts Step step_terminated_returns [of r ats a e ts] show ?thesis by simp
  next
    case False
    define e3 where "e3 = called Coordinator_check_timeout
               (called Coordinator_should_restart (e\<lparr>latest_action := a\<rparr>))"
    show ?thesis
    proof (cases "reset_next_step e")
      case True
      with False have "step ats r a e = reset r e3"
        by (simp add: step_quiet e3_def)
      with assms Step show ?thesis
        by (simp add: reset_returned_type split: if_splits)
    next
      case nt: False
      with False have "step ats r a e = step_execute ats r a e3"
        by (simp add: step_quiet e3_def)
      with ts Step step_execute_pending [of ats r a e3 ts] show ?thesis
        by simp
    qed
  qed
qed

text \<open>
  What a call returns when the reset is pending.
\<close>

lemma do_call_when_pending:
  assumes "reset_next_step e"
    and "''restart_count'' \<in> dom (log_dict e)" "''reset_count_step_timeout'' \<in> dom (log_dict e)"
  shows "returned_type (snd (do_call ats c e)) =
     (if infrastructure_terminated c then Some LAST
      else if get_current_extras (responses_of c) = None then None
      else Some FIRST)"
proof (cases c)
  case (Reset r)
  then show ?thesis
    by (simp add: infrastructure_terminated_def responses_of_def reset_returned_type)
next
  case (Step r a)
  show ?thesis
  proof (cases "should_restart r \<or> check_timeout r")
    case True
    with Step step_terminated_type [OF True assms(2,3), of ats a] show ?thesis
      by (simp add: infrastructure_terminated_def)
  next
    case False
    with assms(1) have "step ats r a e = reset r (called Coordinator_check_timeout
               (called Coordinator_should_restart (e\<lparr>latest_action := a\<rparr>)))"
      by (simp add: step_quiet)
    with False Step show ?thesis
      by (simp add: infrastructure_terminated_def responses_of_def reset_returned_type)
  qed
qed

text \<open>
  While the reset is pending, a call either returns \<open>FIRST\<close> or leaves it pending.
\<close>

lemma do_call_keeps_pending:
  assumes "reset_next_step e"
  shows "returned_type (snd (do_call ats c e)) = Some FIRST \<or> reset_next_step (fst (do_call ats c e))"
proof (cases c)
  case (Reset r)
  with assms show ?thesis
    by (simp add: reset_returned_type reset_pending)
next
  case (Step r a)
  show ?thesis
  proof (cases "should_restart r \<or> check_timeout r")
    case True
    with Step assms step_terminated_pending [OF True, of ats a e] show ?thesis
      by auto
  next
    case False
    define e3 where "e3 = called Coordinator_check_timeout
               (called Coordinator_should_restart (e\<lparr>latest_action := a\<rparr>))"
    have "reset_next_step e3"
      using assms by (simp add: e3_def called_def)
    moreover from False assms have "step ats r a e = reset r e3"
      by (simp add: step_quiet e3_def)
    ultimately show ?thesis
      using Step by (simp add: reset_returned_type reset_pending)
  qed
qed

text \<open>
  A step that is executed and returns \<open>LAST\<close> started with no reset pending.
\<close>

lemma do_call_LAST_executed:
  assumes "returned_type (snd (do_call ats c e)) = Some LAST" "\<not> infrastructure_terminated c"
  shows "\<not> reset_next_step e"
proof
  assume p: "reset_next_step e"
  show False
  proof (cases c)
    case (Reset r)
    with assms show ?thesis
      by (simp add: reset_returned_type split: if_splits)
  next
    case (Step r a)
    with assms(2) have q: "\<not> should_restart r" "\<not> check_timeout r"
      by (simp_all add: infrastructure_terminated_def)
    with p have "step ats r a e = reset r (called Coordinator_check_timeout
               (called Coordinator_should_restart (e\<lparr>latest_action := a\<rparr>)))"
      by (simp add: step_quiet)
    with assms(1) Step show ?thesis
      by (simp add: reset_returned_type split: if_splits)
  qed
qed

lemma pending_cleared_by_FIRST:
  "reset_next_step e \<Longrightarrow> \<not> reset_next_step (exec ats cs e) \<Longrightarrow>
     \<exists>k < length cs. returned_type (run ats cs e ! k) = Some FIRST"
proof (induction cs arbitrary: e)
  case Nil
  then show ?case by simp
next
  case (Cons c cs)
  show ?case
  proof (cases "returned_type (snd (do_call ats c e)) = Some FIRST")
    case True
    then have "returned_type (run ats (c # cs) e ! 0) = Some FIRST"
      by simp
    then show ?thesis by blast
  next
    case False
    with do_call_keeps_pending [OF Cons.prems(1), of ats c]
    have "reset_next_step (fst (do_call ats c e))" by simp
    from Cons.IH [OF this] Cons.prems(2)
    obtain k where "k < length cs" "returned_type (run ats cs (fst (do_call ats c e)) ! k) = Some FIRST"
      by auto
    then have "Suc k < length (c # cs) \<and> returned_type (run ats (c # cs) e ! Suc k) = Some FIRST"
      by simp
    then show ?thesis by blast
  qed
qed

text \<open>
  Claim C1, as the code has it.  In the step types returned by any sequence of calls of
  \<open>reset\<close> and \<open>step\<close> on a new object, with any answers of the collaborators:
  the call after one that returned \<open>LAST\<close> returns \<open>LAST\<close> again when it is a
  \<open>step\<close> at which \<open>should_restart()\<close> or \<open>check_timeout()\<close> is true; otherwise it
  returns \<open>FIRST\<close> (or raises, when \<open>get_current_extras\<close> returns \<open>None\<close>).
  And of two calls that returned \<open>LAST\<close>, the second not such a step, a call in between
  returned \<open>FIRST\<close>.
\<close>

theorem LAST_is_followed:
  "(Suc i < length cs \<longrightarrow> returned_type (run ats cs (init ats) ! i) = Some LAST \<longrightarrow>
      returned_type (run ats cs (init ats) ! Suc i) =
        (if infrastructure_terminated (cs ! Suc i) then Some LAST
         else if get_current_extras (responses_of (cs ! Suc i)) = None then None
         else Some FIRST))
   \<and> (i < j \<longrightarrow> j < length cs \<longrightarrow> returned_type (run ats cs (init ats) ! i) = Some LAST \<longrightarrow>
      returned_type (run ats cs (init ats) ! j) = Some LAST \<longrightarrow>
      \<not> infrastructure_terminated (cs ! j) \<longrightarrow>
      (\<exists>k. i < k \<and> k < j \<and> returned_type (run ats cs (init ats) ! k) = Some FIRST))"
proof (intro conjI impI)
  assume i: "Suc i < length cs" and l: "returned_type (run ats cs (init ats) ! i) = Some LAST"
  define e where "e = exec ats (take (Suc i) cs) (init ats)"
  from i l have "returned_type (snd (do_call ats (cs ! i) (exec ats (take i cs) (init ats)))) = Some LAST"
    by (simp add: run_nth)
  from do_call_LAST_pending [OF this] i have p: "reset_next_step e"
    by (simp add: e_def exec_take_Suc)
  have k: "''restart_count'' \<in> dom (log_dict e)" "''reset_count_step_timeout'' \<in> dom (log_dict e)"
    by (simp_all add: e_def dom_reachable ledger_keys_def)
  from do_call_when_pending [OF p k, of ats "cs ! Suc i"] i
  show "returned_type (run ats cs (init ats) ! Suc i) =
        (if infrastructure_terminated (cs ! Suc i) then Some LAST
         else if get_current_extras (responses_of (cs ! Suc i)) = None then None
         else Some FIRST)"
    by (simp add: run_nth e_def)
next
  assume ij: "i < j" and j: "j < length cs"
    and li: "returned_type (run ats cs (init ats) ! i) = Some LAST"
    and lj: "returned_type (run ats cs (init ats) ! j) = Some LAST"
    and nt: "\<not> infrastructure_terminated (cs ! j)"
  define e where "e = exec ats (take (Suc i) cs) (init ats)"
  define mid where "mid = take (j - Suc i) (drop (Suc i) cs)"
  from ij j li have "returned_type (snd (do_call ats (cs ! i) (exec ats (take i cs) (init ats)))) = Some LAST"
    by (simp add: run_nth)
  from do_call_LAST_pending [OF this] ij j have p: "reset_next_step e"
    by (simp add: e_def exec_take_Suc)
  from j lj have "returned_type (snd (do_call ats (cs ! j) (exec ats (take j cs) (init ats)))) = Some LAST"
    by (simp add: run_nth)
  from do_call_LAST_executed [OF this nt] have q: "\<not> reset_next_step (exec ats (take j cs) (init ats))" .
  have "take j cs = take (Suc i) cs @ mid"
    using ij take_add [of "Suc i" "j - Suc i" cs] by (simp add: mid_def)
  then have "exec ats (take j cs) (init ats) = exec ats mid e"
    by (simp add: exec_append e_def)
  with q have "\<not> reset_next_step (exec ats mid e)" by simp
  from pending_cleared_by_FIRST [OF p this]
  obtain k where k: "k < length mid" "returned_type (run ats mid e ! k) = Some FIRST"
    by blast
  from k(1) ij j have kj: "k < j - Suc i"
    by (simp add: mid_def)
  have "run ats mid e = take (j - Suc i) (drop (Suc i) (run ats cs (init ats)))"
    by (simp add: mid_def e_def run_take run_drop)
  with kj j have "run ats mid e ! k = run ats cs (init ats) ! (Suc i + k)"
    by simp
  with k(2) have "returned_type (run ats cs (init ats) ! (Suc i + k)) = Some FIRST"
    by simp
  moreover have "i < Suc i + k" "Suc i + k < j"
    using kj by simp_all
  ultimately show "\<exists>k. i < k \<and> k < j \<and> returned_type (run ats cs (init ats) ! k) = Some FIRST"
    by blast
qed

text \<open>
  Claim C1 as stated fails: a step ended by a timeout right after the end of an episode
  returns \<open>LAST\<close> after \<open>LAST\<close>, two of them with no \<open>FIRST\<close> in between.
\<close>

theorem LAST_followed_by_LAST_counterexample:
  "map returned_type (run sample_types
     [Reset quiet, Step (quiet\<lparr>check_if_episode_ended := True\<rparr>) sample_action,
      Step (quiet\<lparr>check_timeout := True\<rparr>) sample_action, Step quiet sample_action]
     (init sample_types)) = [Some FIRST, Some LAST, Some LAST, Some FIRST]"
  by (simp add: eval_defs returned_type_def)

text \<open>
  The theorem at two episodes of one step each.
\<close>

theorem LAST_is_followed_witness:
  "returned_type (run sample_types
      [Reset quiet, Step (quiet\<lparr>check_if_episode_ended := True\<rparr>) sample_action,
       Step quiet sample_action, Step (quiet\<lparr>check_if_episode_ended := True\<rparr>) sample_action]
      (init sample_types) ! 2) = Some FIRST
   \<and> (\<exists>k. 1 < k \<and> k < 3 \<and> returned_type (run sample_types
      [Reset quiet, Step (quiet\<lparr>check_if_episode_ended := True\<rparr>) sample_action,
       Step quiet sample_action, Step (quiet\<lparr>check_if_episode_ended := True\<rparr>) sample_action]
      (init sample_types) ! k) = Some FIRST)
   \<and> map returned_type (run sample_types
      [Reset quiet, Step (quiet\<lparr>check_if_episode_ended := True\<rparr>) sample_action,
       Step quiet sample_action, Step (quiet\<lparr>check_if_episode_ended := True\<rparr>) sample_action]
      (init sample_types)) = [Some FIRST, Some LAST, Some FIRST, Some LAST]"
proof -
  let ?cs = "[Reset quiet, Step (quiet\<lparr>check_if_episode_ended := True\<rparr>) sample_action,
       Step quiet sample_action, Step (quiet\<lparr>check_if_episode_ended := True\<rparr>) sample_action]"
  have m: "map returned_type (run sample_types ?cs (init sample_types)) =
      [Some FIRST, Some LAST, Some FIRST, Some LAST]"
    by (simp add: eval_defs returned_type_def)
  then have l: "returned_type (run sample_types ?cs (init sample_types) ! 1) = Some LAST"
    and l3: "returned_type (run sample_types ?cs (init sample_types) ! 3) = Some LAST"
    by simp_all
  have n: "Suc 1 < length ?cs" "(1::nat) < 3" "3 < length ?cs"
    by simp_all
  have t: "\<not> infrastructure_terminated (?cs ! 3)"
    by (simp add: infrastructure_terminated_def)
  note w = LAST_is_followed [of 1 ?cs sample_types 3]
  from w [THEN conjunct1, rule_format, OF n(1) l]
  have a: "returned_type (run sample_types ?cs (init sample_types) ! 2) = Some FIRST"
    by (simp add: infrastructure_terminated_def responses_of_def)
  from w [THEN conjunct2, rule_format, OF n(2) n(3) l l3 t]
  have b: "\<exists>k. 1 < k \<and> k < 3 \<and> returned_type (run sample_types ?cs (init sample_types) ! k) = Some FIRST" .
  from a b m show ?thesis
    by simp
qed

section \<open>What task_extras returns and raises\<close>

lemmas extras_eval_defs = task_extras_def task_extra_def astype_def iterate_def
  index_last_def sub_array_def validate_def reset_def Let_def called_def init_def eval_nat_numeral

text \<open>
  The loop over the schema stops at the first key that raises.
\<close>

lemma task_extras_items_append:
  "task_extras_items conv (xs @ ys) lo cache acc =
     (case task_extras_items conv xs lo cache acc of
        Inl err \<Rightarrow> Inl err
      | Inr acc' \<Rightarrow> task_extras_items conv ys lo cache acc')"
proof (induction xs arbitrary: acc)
  case Nil
  show ?case by simp
next
  case (Cons x xs)
  obtain key sp where x: "x = (key, sp)" by (cases x)
  show ?case
  proof (cases "cache key")
    case None
    then show ?thesis by (simp add: x Cons.IH)
  next
    case (Some a)
    show ?thesis
    proof (cases "task_extra conv sp lo a")
      case (Inl err)
      with Some show ?thesis by (simp add: x)
    next
      case (Inr v)
      have "task_extras_items conv ((x # xs) @ ys) lo cache acc =
            task_extras_items conv (xs @ ys) lo cache (acc(key \<mapsto> v))"
        using Some Inr by (simp add: x)
      moreover have "task_extras_items conv (x # xs) lo cache acc =
            task_extras_items conv xs lo cache (acc(key \<mapsto> v))"
        using Some Inr by (simp add: x)
      ultimately show ?thesis
        by (simp only: Cons.IH)
    qed
  qed
qed

lemma task_extras_items_fails:
  assumes "(k, sp) \<in> set specs" "cache k = Some a" "isl (task_extra conv sp lo a)"
  shows "isl (task_extras_items conv specs lo cache acc)"
  using assms(1)
proof (induction specs arbitrary: acc)
  case Nil
  then show ?case by simp
next
  case (Cons x specs)
  obtain key sp' where x: "x = (key, sp')" by (cases x)
  show ?case
  proof (cases "x = (k, sp)")
    case True
    with x assms(2,3) show ?thesis
      by (cases "task_extra conv sp lo a") simp_all
  next
    case False
    with Cons.prems have "(k, sp) \<in> set specs" by simp
    from Cons.IH [OF this] have ih: "\<And>acc. isl (task_extras_items conv specs lo cache acc)" .
    show ?thesis
    proof (cases "cache key")
      case None
      then show ?thesis by (simp add: x ih)
    next
      case (Some b)
      then show ?thesis
        by (cases "task_extra conv sp' lo b") (simp_all add: x ih)
    qed
  qed
qed

lemma task_extras_items_succeeds:
  assumes "task_extras_items conv specs lo cache acc = Inr m" "(k, sp) \<in> set specs" "cache k = Some a"
  shows "\<exists>v. task_extra conv sp lo a = Inr v"
proof (rule ccontr)
  assume "\<not> (\<exists>v. task_extra conv sp lo a = Inr v)"
  then have "isl (task_extra conv sp lo a)"
    by (cases "task_extra conv sp lo a") simp_all
  from task_extras_items_fails [where cache = cache and acc = acc, OF assms(2,3) this] assms(1)
  show False
    by simp
qed

text \<open>
  The entries of the dictionary returned.
\<close>

lemma task_extras_items_other:
  "task_extras_items conv specs lo cache acc = Inr m \<Longrightarrow> k \<notin> fst ` set specs \<Longrightarrow> m k = acc k"
proof (induction specs arbitrary: acc)
  case Nil
  then show ?case by simp
next
  case (Cons x specs)
  obtain key sp where x: "x = (key, sp)" by (cases x)
  from Cons.prems(2) x have k: "k \<noteq> key" "k \<notin> fst ` set specs" by auto
  show ?case
  proof (cases "cache key")
    case None
    with Cons.prems(1) x have "task_extras_items conv specs lo cache acc = Inr m" by simp
    from Cons.IH [OF this k(2)] show ?thesis .
  next
    case (Some a)
    show ?thesis
    proof (cases "task_extra conv sp lo a")
      case (Inl err)
      with Some Cons.prems(1) x show ?thesis by simp
    next
      case (Inr v)
      with Some Cons.prems(1) x
      have "task_extras_items conv specs lo cache (acc(key \<mapsto> v)) = Inr m" by simp
      from Cons.IH [OF this k(2)] k(1) show ?thesis by simp
    qed
  qed
qed

lemma task_extras_items_skipped:
  "task_extras_items conv specs lo cache acc = Inr m \<Longrightarrow> cache k = None \<Longrightarrow> m k = acc k"
proof (induction specs arbitrary: acc)
  case Nil
  then show ?case by simp
next
  case (Cons x specs)
  obtain key sp where x: "x = (key, sp)" by (cases x)
  show ?case
  proof (cases "cache key")
    case None
    with Cons.prems(1) x have "task_extras_items conv specs lo cache acc = Inr m" by simp
    from Cons.IH [OF this Cons.prems(2)] show ?thesis .
  next
    case (Some a)
    with Cons.prems(2) have k: "k \<noteq> key" by auto
    show ?thesis
    proof (cases "task_extra conv sp lo a")
      case (Inl err)
      with Some Cons.prems(1) x show ?thesis by simp
    next
      case (Inr v)
      with Some Cons.prems(1) x
      have "task_extras_items conv specs lo cache (acc(key \<mapsto> v)) = Inr m" by simp
      from Cons.IH [OF this Cons.prems(2)] k show ?thesis by simp
    qed
  qed
qed

lemma task_extras_items_entry:
  "task_extras_items conv specs lo cache acc = Inr m \<Longrightarrow> distinct (map fst specs) \<Longrightarrow>
     (k, sp) \<in> set specs \<Longrightarrow> cache k = Some a \<Longrightarrow> task_extra conv sp lo a = Inr v \<Longrightarrow> m k = Some v"
proof (induction specs arbitrary: acc)
  case Nil
  then show ?case by simp
next
  case (Cons x specs)
  obtain key sp' where x: "x = (key, sp')" by (cases x)
  from Cons.prems(2) x have d: "key \<notin> fst ` set specs" "distinct (map fst specs)" by auto
  show ?case
  proof (cases "(k, sp) = x")
    case True
    with x have e: "key = k" "sp' = sp" by simp_all
    with Cons.prems(1,4,5) x
    have "task_extras_items conv specs lo cache (acc(k \<mapsto> v)) = Inr m" by simp
    from task_extras_items_other [OF this] d(1) e(1) show ?thesis by simp
  next
    case False
    with Cons.prems(3) have in_rest: "(k, sp) \<in> set specs" by auto
    show ?thesis
    proof (cases "cache key")
      case None
      with Cons.prems(1) x have "task_extras_items conv specs lo cache acc = Inr m" by simp
      from Cons.IH [OF this d(2) in_rest Cons.prems(4,5)] show ?thesis .
    next
      case (Some b)
      show ?thesis
      proof (cases "task_extra conv sp' lo b")
        case (Inl err)
        with Some Cons.prems(1) x show ?thesis by simp
      next
        case (Inr w)
        with Some Cons.prems(1) x
        have "task_extras_items conv specs lo cache (acc(key \<mapsto> w)) = Inr m" by simp
        from Cons.IH [OF this d(2) in_rest Cons.prems(4,5)] show ?thesis .
      qed
    qed
  qed
qed

text \<open>
  The validation of the elements of one cached value.
\<close>

lemma validate_each_ok:
  "validate_each sp xs = Inr u \<longleftrightarrow> (\<forall>x \<in> set xs. validate sp x = Inr ())"
proof (induction xs)
  case Nil
  show ?case by simp
next
  case (Cons x xs)
  then show ?case
    by (cases "validate sp x") simp_all
qed

lemma validate_error: "validate sp x = Inl err \<Longrightarrow> err = SchemaViolation"
  by (auto simp add: validate_def split: if_splits option.splits prod.splits)

lemma validate_each_error: "validate_each sp xs = Inl err \<Longrightarrow> err = SchemaViolation"
  by (induction xs) (auto split: sum.splits dest: validate_error)

lemma validate_each_fails:
  "x \<in> set xs \<Longrightarrow> validate sp x = Inl SchemaViolation \<Longrightarrow> validate_each sp xs = Inl SchemaViolation"
proof -
  assume a: "x \<in> set xs" "validate sp x = Inl SchemaViolation"
  then have "\<exists>x \<in> set xs. validate sp x \<noteq> Inr ()"
    by (intro bexI [of _ x]) simp_all
  then have "\<not> (\<forall>x \<in> set xs. validate sp x = Inr ())" by blast
  then have "validate_each sp xs \<noteq> Inr ()" by (simp add: validate_each_ok)
  then obtain err where "validate_each sp xs = Inl err" by (cases "validate_each sp xs") auto
  with validate_each_error [OF this] show ?thesis by simp
qed

lemma task_extra_violation:
  assumes "arr_shape a = n # s" "i < n"
    and "validate sp (sub_array (astype conv (spec_dtype sp) a) s i) = Inl SchemaViolation"
  shows "task_extra conv sp lo a = Inl SchemaViolation"
proof -
  have "iterate (astype conv (spec_dtype sp) a) = Inr (map (sub_array (astype conv (spec_dtype sp) a) s) [0..<n])"
    using assms(1) by (simp add: iterate_def astype_def)
  moreover have "sub_array (astype conv (spec_dtype sp) a) s i \<in> set (map (sub_array (astype conv (spec_dtype sp) a) s) [0..<n])"
    using assms(2) by simp
  from validate_each_fails [OF this assms(3)]
  have "validate_each sp (map (sub_array (astype conv (spec_dtype sp) a) s) [0..<n]) = Inl SchemaViolation" .
  ultimately show ?thesis
    by (simp add: task_extra_def)
qed

lemma task_extra_latest_valid:
  assumes "task_extra conv sp True a = Inr v"
  shows "validate sp v = Inr ()"
proof -
  define b where "b = astype conv (spec_dtype sp) a"
  from assms obtain xs where xs: "iterate b = Inr xs" "validate_each sp xs = Inr ()" "index_last b = Inr v"
    by (auto simp add: task_extra_def b_def Let_def split: sum.splits)
  from xs(1) obtain n s where ns: "arr_shape b = n # s" "xs = map (sub_array b s) [0..<n]"
    by (auto simp add: iterate_def split: list.splits)
  from xs(3) ns(1) have "0 < n" "v = sub_array b s (n - 1)"
    by (auto simp add: index_last_def split: if_splits)
  then have "v \<in> set xs"
    using ns(2) by auto
  with xs(2) show ?thesis
    by (simp add: validate_each_ok)
qed

lemma task_extra_empty:
  assumes "arr_shape a = 0 # s"
  shows "task_extra conv sp True a = Inl IndexError"
  using assms by (simp add: task_extra_def iterate_def index_last_def astype_def)

text \<open>
  The conversion keeps the shape and gives every element the dtype of the schema.
\<close>

lemma astype_fields [simp]:
  "arr_shape (astype conv dt a) = arr_shape a"
  "arr_dtype (astype conv dt a) = dt"
  "arr_data (astype conv dt a) = map (conv (arr_dtype a) dt) (arr_data a)"
  by (simp_all add: astype_def)

lemma sub_array_fields [simp]:
  "arr_shape (sub_array a s i) = s"
  "arr_dtype (sub_array a s i) = arr_dtype a"
  "arr_data (sub_array a s i) = take (prod_list s) (drop (i * prod_list s) (arr_data a))"
  by (simp_all add: sub_array_def)

lemma validate_converted:
  "validate sp (sub_array (astype conv (spec_dtype sp) a) s i) = Inl SchemaViolation \<longleftrightarrow>
     s \<noteq> spec_shape sp
     \<or> (\<exists>l h. spec_bounds sp = Some (l, h)
          \<and> \<not> list_all (\<lambda>x. l \<le> x \<and> x \<le> h)
                (map (conv (arr_dtype a) (spec_dtype sp))
                   (take (prod_list s) (drop (i * prod_list s) (arr_data a)))))"
  by (cases "spec_bounds sp") (auto simp add: validate_def take_map drop_map)

lemma validate_each_failing_element:
  "validate_each sp xs = Inl err \<Longrightarrow> \<exists>x \<in> set xs. validate sp x = Inl SchemaViolation"
proof (induction xs)
  case Nil
  then show ?case by simp
next
  case (Cons x xs)
  show ?case
  proof (cases "validate sp x")
    case (Inl e)
    with validate_error [OF Inl] show ?thesis by simp
  next
    case (Inr u)
    with Cons show ?thesis by simp
  qed
qed

lemma task_extra_violation_iff:
  "task_extra conv sp lo a = Inl SchemaViolation \<longleftrightarrow>
     (\<exists>n s i. arr_shape a = n # s \<and> i < n
        \<and> validate sp (sub_array (astype conv (spec_dtype sp) a) s i) = Inl SchemaViolation)"
proof
  assume v: "task_extra conv sp lo a = Inl SchemaViolation"
  define b where "b = astype conv (spec_dtype sp) a"
  show "\<exists>n s i. arr_shape a = n # s \<and> i < n
        \<and> validate sp (sub_array (astype conv (spec_dtype sp) a) s i) = Inl SchemaViolation"
  proof (cases "arr_shape a")
    case Nil
    with v show ?thesis
      by (simp add: task_extra_def iterate_def)
  next
    case (Cons n s)
    then have it: "iterate b = Inr (map (sub_array b s) [0..<n])"
      by (simp add: iterate_def b_def)
    show ?thesis
    proof (cases "validate_each sp (map (sub_array b s) [0..<n])")
      case (Inl err)
      from validate_each_failing_element [OF Inl]
      obtain i where "i < n" "validate sp (sub_array b s i) = Inl SchemaViolation"
        by auto
      with Cons show ?thesis
        unfolding b_def by blast
    next
      case (Inr u)
      have sb: "arr_shape b = n # s"
        using Cons by (simp add: b_def)
      from v it Inr sb show ?thesis
        by (auto simp add: task_extra_def b_def [symmetric] index_last_def split: if_splits)
    qed
  qed
next
  assume "\<exists>n s i. arr_shape a = n # s \<and> i < n
        \<and> validate sp (sub_array (astype conv (spec_dtype sp) a) s i) = Inl SchemaViolation"
  then show "task_extra conv sp lo a = Inl SchemaViolation"
    using task_extra_violation by blast
qed

lemma task_extra_dtype:
  assumes "task_extra conv sp lo a = Inr v"
  shows "arr_dtype v = spec_dtype sp"
  using assms
  by (auto simp add: task_extra_def Let_def iterate_def index_last_def
      split: sum.splits list.splits if_splits)

text \<open>
  Claim C6, as the code has it.  \<open>task_extras\<close> converts every cached value to the dtype
  of its schema before it validates anything, so the dtype of the cached value is never
  checked: a value of another dtype is converted, not rejected, and every value the method
  returns has the dtype of its schema.  The validation is of the converted elements: for a
  cached value, the loop raises \<open>SchemaViolation\<close> exactly when some element along the
  first axis has a shape other than the schema's or, once converted, lies outside the
  bounds of the schema.  The method then raises: \<open>SchemaViolation\<close> when the keys before
  that one raise nothing, and what an earlier key raises otherwise.  With \<open>latest_only\<close>,
  every value the method returns meets its schema.
\<close>

theorem task_extras_validates_converted:
  "(task_extra conv sp lo a = Inl SchemaViolation \<longleftrightarrow>
      (\<exists>n s i. arr_shape a = n # s \<and> i < n
         \<and> (s \<noteq> spec_shape sp
            \<or> (\<exists>l h. spec_bounds sp = Some (l, h)
                 \<and> \<not> list_all (\<lambda>x. l \<le> x \<and> x \<le> h)
                       (map (conv (arr_dtype a) (spec_dtype sp))
                          (take (prod_list s) (drop (i * prod_list s) (arr_data a))))))))
   \<and> (\<forall>v. task_extra conv sp lo a = Inr v \<longrightarrow> arr_dtype v = spec_dtype sp)
   \<and> (\<forall>m k sp' v. distinct (map fst specs) \<longrightarrow> (k, sp') \<in> set specs \<longrightarrow>
         task_extras conv specs True e = Inr m \<longrightarrow> m k = Some v \<longrightarrow> validate sp' v = Inr ())
   \<and> (\<forall>k sp' c. (k, sp') \<in> set specs \<longrightarrow> latest_extras e k = Some c \<longrightarrow>
         task_extra conv sp' lo c = Inl SchemaViolation \<longrightarrow>
         isl (task_extras conv specs lo e)
         \<and> (\<forall>pre post acc. specs = pre @ (k, sp') # post \<longrightarrow>
               task_extras_items conv pre lo (latest_extras e) Map.empty = Inr acc \<longrightarrow>
               task_extras conv specs lo e = Inl SchemaViolation))"
proof (intro conjI allI impI)
  show "task_extra conv sp lo a = Inl SchemaViolation \<longleftrightarrow>
      (\<exists>n s i. arr_shape a = n # s \<and> i < n
         \<and> (s \<noteq> spec_shape sp
            \<or> (\<exists>l h. spec_bounds sp = Some (l, h)
                 \<and> \<not> list_all (\<lambda>x. l \<le> x \<and> x \<le> h)
                       (map (conv (arr_dtype a) (spec_dtype sp))
                          (take (prod_list s) (drop (i * prod_list s) (arr_data a)))))))"
    by (simp only: task_extra_violation_iff validate_converted)
next
  fix v
  assume "task_extra conv sp lo a = Inr v"
  then show "arr_dtype v = spec_dtype sp"
    by (rule task_extra_dtype)
next
  fix m k sp' v
  assume d: "distinct (map fst specs)" and i: "(k, sp') \<in> set specs"
    and r: "task_extras conv specs True e = Inr m" and v: "m k = Some v"
  from r have r': "task_extras_items conv specs True (latest_extras e) Map.empty = Inr m"
    by (simp add: task_extras_def)
  show "validate sp' v = Inr ()"
  proof (cases "latest_extras e k")
    case None
    from task_extras_items_skipped [OF r' None] v show ?thesis by simp
  next
    case (Some c)
    from task_extras_items_succeeds [OF r' i Some] obtain w where w: "task_extra conv sp' True c = Inr w"
      by blast
    from task_extras_items_entry [OF r' d i Some w] v have "w = v" by simp
    with w task_extra_latest_valid show ?thesis by simp
  qed
next
  fix k sp' c
  assume a: "(k, sp') \<in> set specs" "latest_extras e k = Some c"
    "task_extra conv sp' lo c = Inl SchemaViolation"
  then have "isl (task_extra conv sp' lo c)"
    by simp
  from task_extras_items_fails [where cache = "latest_extras e" and acc = Map.empty, OF a(1,2) this]
  show "isl (task_extras conv specs lo e)"
    by (simp add: task_extras_def)
next
  fix k sp' c pre post acc
  assume "latest_extras e k = Some c" "task_extra conv sp' lo c = Inl SchemaViolation"
    "specs = pre @ (k, sp') # post"
    "task_extras_items conv pre lo (latest_extras e) Map.empty = Inr acc"
  then show "task_extras conv specs lo e = Inl SchemaViolation"
    by (simp add: task_extras_def task_extras_items_append)
qed

text \<open>
  Claim C6 as stated fails: an array of integers cached for a schema of floats is not
  rejected; the method returns its last element as a float.
\<close>

theorem wrong_dtype_converted_counterexample:
  "task_extras exact [(''score'', score_spec)] True
     (fst (reset (quiet\<lparr>get_current_extras :=
                     Some [''score'' \<mapsto> \<lparr>arr_dtype = int64, arr_shape = [2], arr_data = [3, 5]\<rparr>]\<rparr>)
            (init sample_types))) =
     Inr [''score'' \<mapsto> \<lparr>arr_dtype = float64, arr_shape = [], arr_data = [5]\<rparr>]"
  by (simp add: extras_eval_defs)

text \<open>
  The theorem at a value with an element out of bounds, which is rejected, and at a
  value that is returned.
\<close>

theorem task_extras_validates_converted_witness:
  "task_extra exact score_spec True \<lparr>arr_dtype = int64, arr_shape = [2], arr_data = [3, 50]\<rparr> =
     Inl SchemaViolation
   \<and> task_extras exact [(''score'', score_spec)] True
       (fst (reset (quiet\<lparr>get_current_extras :=
                     Some [''score'' \<mapsto> \<lparr>arr_dtype = int64, arr_shape = [2], arr_data = [3, 50]\<rparr>]\<rparr>)
              (init sample_types))) = Inl SchemaViolation
   \<and> task_extra exact score_spec True \<lparr>arr_dtype = int64, arr_shape = [2], arr_data = [3, 5]\<rparr> =
       Inr \<lparr>arr_dtype = float64, arr_shape = [], arr_data = [5]\<rparr>
   \<and> validate score_spec \<lparr>arr_dtype = float64, arr_shape = [], arr_data = [5]\<rparr> = Inr ()"
proof -
  let ?a = "\<lparr>arr_dtype = int64, arr_shape = [2], arr_data = [3, 50]\<rparr>"
  let ?e = "fst (reset (quiet\<lparr>get_current_extras := Some [''score'' \<mapsto> ?a]\<rparr>) (init sample_types))"
  let ?b = "\<lparr>arr_dtype = int64, arr_shape = [2], arr_data = [3, 5]\<rparr>"
  let ?f = "fst (reset (quiet\<lparr>get_current_extras := Some [''score'' \<mapsto> ?b]\<rparr>) (init sample_types))"
  let ?v = "\<lparr>arr_dtype = float64, arr_shape = [], arr_data = [5]\<rparr>"
  let ?specs = "[(''score'', score_spec)]"
  note w = task_extras_validates_converted
    [where conv = exact and sp = score_spec and lo = True and a = ?a and specs = ?specs and e = ?e]
  have out: "\<exists>n s i. arr_shape ?a = n # s \<and> i < n
         \<and> (s \<noteq> spec_shape score_spec
            \<or> (\<exists>l h. spec_bounds score_spec = Some (l, h)
                 \<and> \<not> list_all (\<lambda>x. l \<le> x \<and> x \<le> h)
                       (map (exact (arr_dtype ?a) (spec_dtype score_spec))
                          (take (prod_list s) (drop (i * prod_list s) (arr_data ?a))))))"
    by (rule exI [of _ 2], rule exI [of _ "[]"], rule exI [of _ 1]) simp
  from w [THEN conjunct1] out
  have a: "task_extra exact score_spec True ?a = Inl SchemaViolation"
    by blast
  have h: "(''score'', score_spec) \<in> set ?specs" "latest_extras ?e ''score'' = Some ?a"
    by (simp_all add: reset_def Let_def called_def)
  have p: "?specs = [] @ (''score'', score_spec) # []"
    "task_extras_items exact [] True (latest_extras ?e) Map.empty = Inr Map.empty"
    by simp_all
  from w [THEN conjunct2, THEN conjunct2, THEN conjunct2, rule_format, OF h a]
  have "\<forall>pre post acc. ?specs = pre @ (''score'', score_spec) # post \<longrightarrow>
               task_extras_items exact pre True (latest_extras ?e) Map.empty = Inr acc \<longrightarrow>
               task_extras exact ?specs True ?e = Inl SchemaViolation"
    by (rule conjunct2)
  from this [rule_format, OF p]
  have b: "task_extras exact ?specs True ?e = Inl SchemaViolation" .
  note w' = task_extras_validates_converted
    [where conv = exact and sp = score_spec and lo = True and a = ?b and specs = ?specs and e = ?f]
  have g: "distinct (map fst ?specs)"
    "task_extras exact ?specs True ?f = Inr [''score'' \<mapsto> ?v]"
    "[''score'' \<mapsto> ?v] ''score'' = Some ?v"
    by (simp_all add: extras_eval_defs)
  from w' [THEN conjunct2, THEN conjunct2, THEN conjunct1, rule_format, OF g(1) h(1) g(2) g(3)]
  have c: "validate score_spec ?v = Inr ()" .
  have d: "task_extra exact score_spec True ?b = Inr ?v"
    by (simp add: extras_eval_defs)
  from a b c d show ?thesis
    by simp
qed

text \<open>
  Claim C10, as the code has it.  When \<open>get_current_extras\<close> has returned, for a key of
  the schema, an array whose first axis has length \<open>0\<close>, \<open>task_extras(latest_only=True)\<close>
  after that \<open>reset\<close> raises: for that key the loop validates nothing and the index
  \<open>[-1]\<close> raises \<open>IndexError\<close>.  The method raises that \<open>IndexError\<close> when the keys
  of the schema before that one raise nothing; a key before it that raises does so first.
\<close>

theorem task_extras_empty_sequence:
  assumes "get_current_extras r = Some cache" "cache k = Some a" "arr_shape a = 0 # s"
    and "(k, sp) \<in> set specs"
  shows "task_extra conv sp True a = Inl IndexError
    \<and> isl (task_extras conv specs True (fst (reset r e)))
    \<and> (\<forall>pre post acc. specs = pre @ (k, sp) # post \<longrightarrow>
          task_extras_items conv pre True cache Map.empty = Inr acc \<longrightarrow>
          task_extras conv specs True (fst (reset r e)) = Inl IndexError)"
proof -
  have c: "latest_extras (fst (reset r e)) = cache"
    using assms(1) by (simp add: reset_caches(2))
  have t: "task_extra conv sp True a = Inl IndexError"
    using assms(3) by (rule task_extra_empty)
  then have "isl (task_extra conv sp True a)" by simp
  from task_extras_items_fails [where cache = cache and acc = Map.empty, OF assms(4,2) this]
  have i: "isl (task_extras conv specs True (fst (reset r e)))"
    by (simp add: task_extras_def c)
  have "task_extras conv specs True (fst (reset r e)) = Inl IndexError"
    if "specs = pre @ (k, sp) # post" "task_extras_items conv pre True cache Map.empty = Inr acc"
    for pre post acc
    using that t assms(2) by (simp add: task_extras_def c task_extras_items_append)
  with t i show ?thesis by blast
qed

text \<open>
  Claim C10 as stated fails: with an empty value cached for the second key of the schema
  and a value of the wrong shape for the first, the method raises \<open>SchemaViolation\<close>,
  not \<open>IndexError\<close>; and an array of shape \<open>(2, 0)\<close>, which has no element, is not
  empty along its first axis: the method returns its last row.
\<close>

theorem empty_after_violation_counterexample:
  "task_extras exact
     [(''a'', \<lparr>spec_shape = [3], spec_dtype = float64, spec_bounds = None\<rparr>),
      (''b'', \<lparr>spec_shape = [], spec_dtype = float64, spec_bounds = None\<rparr>)] True
     (fst (reset (quiet\<lparr>get_current_extras :=
                     Some [''a'' \<mapsto> \<lparr>arr_dtype = float64, arr_shape = [1, 2], arr_data = [1, 2]\<rparr>,
                           ''b'' \<mapsto> \<lparr>arr_dtype = float64, arr_shape = [0], arr_data = []\<rparr>]\<rparr>)
            (init sample_types))) = Inl SchemaViolation
   \<and> task_extras exact
     [(''b'', \<lparr>spec_shape = [0], spec_dtype = float64, spec_bounds = None\<rparr>)] True
     (fst (reset (quiet\<lparr>get_current_extras :=
                     Some [''b'' \<mapsto> \<lparr>arr_dtype = float64, arr_shape = [2, 0], arr_data = []\<rparr>]\<rparr>)
            (init sample_types))) =
     Inr [''b'' \<mapsto> \<lparr>arr_dtype = float64, arr_shape = [0], arr_data = []\<rparr>]"
  by (simp add: extras_eval_defs)

text \<open>
  The theorem at a schema of one key whose cached value is empty.
\<close>

theorem task_extras_empty_sequence_witness:
  "task_extras exact [(''score'', score_spec)] True
     (fst (reset (quiet\<lparr>get_current_extras :=
                     Some [''score'' \<mapsto> \<lparr>arr_dtype = float64, arr_shape = [0], arr_data = []\<rparr>]\<rparr>)
            (init sample_types))) = Inl IndexError"
proof -
  let ?a = "\<lparr>arr_dtype = float64, arr_shape = [0], arr_data = []\<rparr>"
  let ?r = "quiet\<lparr>get_current_extras := Some [''score'' \<mapsto> ?a]\<rparr>"
  have h: "get_current_extras ?r = Some [''score'' \<mapsto> ?a]" "[''score'' \<mapsto> ?a] ''score'' = Some ?a"
    "arr_shape ?a = 0 # []" "(''score'', score_spec) \<in> set [(''score'', score_spec)]"
    by simp_all
  have p: "[(''score'', score_spec)] = [] @ (''score'', score_spec) # []"
    "task_extras_items exact [] True [''score'' \<mapsto> ?a] Map.empty = Inr Map.empty"
    by simp_all
  from task_extras_empty_sequence [where e = "init sample_types" and conv = exact, OF h,
      THEN conjunct2, THEN conjunct2, rule_format, OF p]
  show ?thesis .
qed

section \<open>The export of the counters\<close>

text \<open>
  The keys of the counters are distinct from one another and from the keys of the ratios.
\<close>

lemma key_facts:
  "steps_key p \<noteq> ratio_key p a"
  "steps_key p \<noteq> type_key p a"
  "(type_key p a = ratio_key p b) = (a = ''ratio_'' @ b)"
  "(ratio_key p a = ratio_key p b) = (a = b)"
  "(type_key p a = type_key p b) = (a = b)"
  by (simp_all add: steps_key_def type_key_def ratio_key_def)

lemma key_facts_scopes:
  "steps_key ''androidenv_episode'' \<noteq> ratio_key ''androidenv_total'' a"
  "type_key ''androidenv_episode'' b \<noteq> ratio_key ''androidenv_total'' a"
  "ratio_key ''androidenv_episode'' b \<noteq> ratio_key ''androidenv_total'' a"
  by (simp_all add: steps_key_def type_key_def ratio_key_def)

lemma key_facts_total:
  "steps_key ''androidenv_total'' \<noteq> ratio_key ''androidenv_episode'' a"
  "type_key ''androidenv_total'' b \<noteq> ratio_key ''androidenv_episode'' a"
  "ratio_key ''androidenv_total'' b \<noteq> ratio_key ''androidenv_episode'' a"
  by (simp_all add: steps_key_def type_key_def ratio_key_def)

lemma ledger_keys_steps: "p \<in> set log_prefixes \<Longrightarrow> steps_key p \<in> ledger_keys ats"
  by (simp add: ledger_keys_def)

lemma ledger_keys_type:
  "p \<in> set log_prefixes \<Longrightarrow> t \<in> set ats \<Longrightarrow> type_key p (fst t) \<in> ledger_keys ats"
  unfolding ledger_keys_def by (intro UnI2 UN_I [of p] imageI)

lemma log_prefixes_mem:
  "''androidenv_total'' \<in> set log_prefixes" "''androidenv_episode'' \<in> set log_prefixes"
  by (simp_all add: log_prefixes_def)

lemma ledger_keys_present:
  assumes "ledger_keys ats \<subseteq> dom d" "t \<in> set ats"
  shows "\<exists>a b c x. d (steps_key ''androidenv_total'') = Some a
      \<and> d (type_key ''androidenv_total'' (fst t)) = Some b
      \<and> d (steps_key ''androidenv_episode'') = Some c
      \<and> d (type_key ''androidenv_episode'' (fst t)) = Some x"
proof -
  have "steps_key ''androidenv_total'' \<in> dom d"
    using assms(1) ledger_keys_steps [OF log_prefixes_mem(1), of ats] by (rule subsetD)
  moreover have "type_key ''androidenv_total'' (fst t) \<in> dom d"
    using assms(1) ledger_keys_type [OF log_prefixes_mem(1) assms(2)] by (rule subsetD)
  moreover have "steps_key ''androidenv_episode'' \<in> dom d"
    using assms(1) ledger_keys_steps [OF log_prefixes_mem(2), of ats] by (rule subsetD)
  moreover have "type_key ''androidenv_episode'' (fst t) \<in> dom d"
    using assms(1) ledger_keys_type [OF log_prefixes_mem(2) assms(2)] by (rule subsetD)
  ultimately show ?thesis
    by (simp add: dom_def)
qed

lemma ratio_key_not_ledger_scope:
  assumes "well_formed_enum ats" "t \<in> set ats" "p \<in> set log_prefixes"
  shows "ratio_key p (fst t) \<notin> ledger_keys ats"
proof
  assume "ratio_key p (fst t) \<in> ledger_keys ats"
  with assms(3) obtain u where u: "u \<in> set ats" "fst u = ''ratio_'' @ fst t"
    by (auto simp add: ledger_keys_def log_prefixes_def steps_key_def type_key_def ratio_key_def)
  with assms show False
    by (auto simp add: well_formed_enum_def list_all_iff)
qed

text \<open>
  \<open>_update_log_dict\<close> on counters that have all their keys.
\<close>

lemma update_prefixes_present:
  assumes "d (steps_key ''androidenv_total'') = Some a"
    and "d (type_key ''androidenv_total'' name) = Some b"
    and "d (steps_key ''androidenv_episode'') = Some c"
    and "d (type_key ''androidenv_episode'' name) = Some x"
  shows "update_prefixes log_prefixes name d =
     (d(steps_key ''androidenv_total'' \<mapsto> a + 1, type_key ''androidenv_total'' name \<mapsto> b + 1,
        steps_key ''androidenv_episode'' \<mapsto> c + 1, type_key ''androidenv_episode'' name \<mapsto> x + 1),
      None)"
  using assms by (simp add: log_prefixes_def steps_key_def type_key_def)

lemma enum_lookup:
  assumes "distinct (map snd ats)" "t \<in> set ats"
  shows "ActionType_of ats (real_of_int (snd t)) = Inr t"
proof -
  have "find (\<lambda>u. real_of_int (snd u) = real_of_int (snd t)) ats = Some t"
    using assms
  proof (induction ats)
    case Nil
    then show ?case by simp
  next
    case (Cons u us)
    then show ?case by (auto simp add: rev_image_eqI)
  qed
  then show ?thesis
    by (simp add: ActionType_of_def)
qed

lemma fst_eq_member:
  "distinct (map fst ats) \<Longrightarrow> t \<in> set ats \<Longrightarrow> u \<in> set ats \<Longrightarrow> fst u = fst t \<longleftrightarrow> u = t"
  by (auto simp add: distinct_map inj_on_def)

lemma update_log_dict_member:
  assumes "distinct (map snd ats)" "t \<in> set ats" "ledger_keys ats \<subseteq> dom d"
  shows "snd (update_log_dict ats (real_of_int (snd t)) d) = None"
proof -
  from ledger_keys_present [OF assms(3,2)] obtain a b c x where
    k: "d (steps_key ''androidenv_total'') = Some a"
       "d (type_key ''androidenv_total'' (fst t)) = Some b"
       "d (steps_key ''androidenv_episode'') = Some c"
       "d (type_key ''androidenv_episode'' (fst t)) = Some x"
    by blast
  show ?thesis
    by (simp add: update_log_dict_def enum_lookup [OF assms(1,2)] update_prefixes_present [OF k])
qed

lemma update_log_dict_all_counts:
  assumes "distinct (map fst ats)" "distinct (map snd ats)"
  shows "set ts \<subseteq> set ats \<Longrightarrow> ledger_keys ats \<subseteq> dom d \<Longrightarrow>
     d (steps_key ''androidenv_episode'') = Some n \<Longrightarrow>
     (\<forall>t \<in> set ats. d (type_key ''androidenv_episode'' (fst t)) = Some (f t)) \<Longrightarrow>
     snd (update_log_dict_all ats (map (\<lambda>t. real_of_int (snd t)) ts) d) = None
       \<and> dom (fst (update_log_dict_all ats (map (\<lambda>t. real_of_int (snd t)) ts) d)) = dom d
       \<and> fst (update_log_dict_all ats (map (\<lambda>t. real_of_int (snd t)) ts) d)
            (steps_key ''androidenv_episode'') = Some (n + real (length ts))
       \<and> (\<forall>t \<in> set ats.
             fst (update_log_dict_all ats (map (\<lambda>t. real_of_int (snd t)) ts) d)
               (type_key ''androidenv_episode'' (fst t)) = Some (f t + real (count_list ts t)))"
proof (induction ts arbitrary: d n f)
  case Nil
  then show ?case by simp
next
  case (Cons t ts)
  from Cons.prems(1) have t: "t \<in> set ats" and ts: "set ts \<subseteq> set ats"
    by simp_all
  from ledger_keys_present [OF Cons.prems(2) t] obtain a b c x where
    k: "d (steps_key ''androidenv_total'') = Some a"
       "d (type_key ''androidenv_total'' (fst t)) = Some b"
       "d (steps_key ''androidenv_episode'') = Some c"
       "d (type_key ''androidenv_episode'' (fst t)) = Some x"
    by blast
  from k(3) Cons.prems(3) have c: "c = n" by simp
  from k(4) Cons.prems(4) t have x: "x = f t" by simp
  define d1 where "d1 = d(steps_key ''androidenv_total'' \<mapsto> a + 1,
        type_key ''androidenv_total'' (fst t) \<mapsto> b + 1,
        steps_key ''androidenv_episode'' \<mapsto> c + 1,
        type_key ''androidenv_episode'' (fst t) \<mapsto> x + 1)"
  define r where "r = update_log_dict_all ats (map (\<lambda>t. real_of_int (snd t)) ts) d1"
  have u: "update_log_dict ats (real_of_int (snd t)) d = (d1, None)"
    by (simp add: update_log_dict_def enum_lookup [OF assms(2) t]
        update_prefixes_present [OF k] d1_def)
  have r: "update_log_dict_all ats (map (\<lambda>t. real_of_int (snd t)) (t # ts)) d = r"
    using u by (simp add: r_def)
  have dom1: "dom d1 = dom d"
    unfolding d1_def using k by (simp add: insert_absorb domI)
  have e1: "d1 (steps_key ''androidenv_episode'') = Some (n + 1)"
    by (simp add: d1_def c steps_key_def type_key_def)
  have f1: "\<forall>u \<in> set ats. d1 (type_key ''androidenv_episode'' (fst u)) =
      Some (f u + (if t = u then 1 else 0))"
  proof
    fix u
    assume u: "u \<in> set ats"
    show "d1 (type_key ''androidenv_episode'' (fst u)) = Some (f u + (if t = u then 1 else 0))"
    proof (cases "t = u")
      case True
      then show ?thesis
        by (simp add: d1_def x)
    next
      case False
      with fst_eq_member [OF assms(1) t u] have "fst u \<noteq> fst t" by auto
      moreover from Cons.prems(4) u have "d (type_key ''androidenv_episode'' (fst u)) = Some (f u)"
        by blast
      ultimately show ?thesis
        using False by (simp add: d1_def steps_key_def type_key_def)
    qed
  qed
  from Cons.prems(2) dom1 have "ledger_keys ats \<subseteq> dom d1" by simp
  note ih = Cons.IH [OF ts this e1 f1, folded r_def]
  have "snd r = None"
    using ih by (rule conjunct1)
  moreover have "dom (fst r) = dom d"
    using ih dom1 by simp
  moreover have "fst r (steps_key ''androidenv_episode'') = Some (n + real (length (t # ts)))"
    using ih by simp
  moreover have "\<forall>u \<in> set ats. fst r (type_key ''androidenv_episode'' (fst u)) =
      Some (f u + real (count_list (t # ts) u))"
  proof
    fix u
    assume "u \<in> set ats"
    with ih have "fst r (type_key ''androidenv_episode'' (fst u)) =
         Some (f u + (if t = u then 1 else 0) + real (count_list ts u))"
      by blast
    then show "fst r (type_key ''androidenv_episode'' (fst u)) =
      Some (f u + real (count_list (t # ts) u))"
      by (cases "t = u") simp_all
  qed
  ultimately show ?case
    unfolding r by (intro conjI)
qed

lemma reset_log_dict_episode:
  assumes "ledger_keys ats \<subseteq> dom d"
  shows "reset_log_dict d (steps_key ''androidenv_episode'') = Some 0"
    and "\<forall>t \<in> set ats. reset_log_dict d (type_key ''androidenv_episode'' (fst t)) = Some 0"
proof -
  have "steps_key ''androidenv_episode'' \<in> dom d"
    using assms ledger_keys_steps [OF log_prefixes_mem(2), of ats] by (rule subsetD)
  then show "reset_log_dict d (steps_key ''androidenv_episode'') = Some 0"
    by (auto simp add: reset_log_dict_def startswith_def steps_key_def)
  show "\<forall>t \<in> set ats. reset_log_dict d (type_key ''androidenv_episode'' (fst t)) = Some 0"
  proof
    fix t
    assume "t \<in> set ats"
    with assms ledger_keys_type [OF log_prefixes_mem(2)]
    have "type_key ''androidenv_episode'' (fst t) \<in> dom d"
      by blast
    then show "reset_log_dict d (type_key ''androidenv_episode'' (fst t)) = Some 0"
      by (auto simp add: reset_log_dict_def startswith_def type_key_def)
  qed
qed

text \<open>
  The steps of an episode that are executed count in \<open>_update_log_dict\<close>, one after the other.
\<close>

lemma step_execute_records:
  assumes "a ''action_type'' = Some arr" "item arr = Inr v"
    and "snd (update_log_dict ats v (log_dict e)) = None" "get_current_extras r \<noteq> None"
  shows "log_dict (fst (step_execute ats r a e)) = fst (update_log_dict ats v (log_dict e))
     \<and> reset_next_step (fst (step_execute ats r a e)) = check_if_episode_ended r"
proof -
  obtain d where d: "update_log_dict ats v (log_dict e) = (d, None)"
    using assms(3) by (cases "update_log_dict ats v (log_dict e)") simp
  from assms(4) obtain x where x: "get_current_extras r = Some x"
    by auto
  show ?thesis
    using assms(1,2) d x by (simp add: step_execute_def Let_def called_def split: option.splits)
qed

lemma step_records:
  assumes "distinct (map snd ats)" "ledger_keys ats \<subseteq> dom (log_dict e)" "\<not> reset_next_step e"
    and "recorded ats (r, a) t"
  shows "log_dict (fst (step ats r a e)) = fst (update_log_dict ats (real_of_int (snd t)) (log_dict e))
     \<and> snd (update_log_dict ats (real_of_int (snd t)) (log_dict e)) = None
     \<and> reset_next_step (fst (step ats r a e)) = check_if_episode_ended r"
proof -
  define e3 where "e3 = called Coordinator_check_timeout
               (called Coordinator_should_restart (e\<lparr>latest_action := a\<rparr>))"
  from assms(4) have q: "\<not> should_restart r" "\<not> check_timeout r" "get_current_extras r \<noteq> None"
    and t: "t \<in> set ats"
    by (simp_all add: recorded_def)
  from assms(4) obtain arr where arr: "a ''action_type'' = Some arr" "item arr = Inr (real_of_int (snd t))"
    by (auto simp add: recorded_def split: option.splits)
  have l: "log_dict e3 = log_dict e"
    by (simp add: e3_def called_def)
  have s: "step ats r a e = step_execute ats r a e3"
    using q(1,2) assms(3) by (simp add: step_quiet e3_def)
  have u: "snd (update_log_dict ats (real_of_int (snd t)) (log_dict e3)) = None"
    unfolding l using assms(1) t assms(2) by (rule update_log_dict_member)
  from step_execute_records [where e = e3 and ats = ats and a = a, OF arr u q(3)] u show ?thesis
    by (simp add: s l)
qed

lemma episode_counts:
  assumes "distinct (map snd ats)"
  shows "\<not> reset_next_step e \<Longrightarrow> ledger_keys ats \<subseteq> dom (log_dict e) \<Longrightarrow>
     list_all2 (recorded ats) ras ts \<Longrightarrow>
     list_all (\<lambda>ra. \<not> check_if_episode_ended (fst ra)) (butlast ras) \<Longrightarrow>
     log_dict (exec ats (map (\<lambda>ra. Step (fst ra) (snd ra)) ras) e) =
       fst (update_log_dict_all ats (map (\<lambda>t. real_of_int (snd t)) ts) (log_dict e))"
proof (induction ras arbitrary: ts e)
  case Nil
  then show ?case by simp
next
  case (Cons ra ras)
  from Cons.prems(3) obtain t ts' where ts: "ts = t # ts'" "recorded ats ra t"
    "list_all2 (recorded ats) ras ts'"
    by (auto simp add: list_all2_Cons1)
  obtain r a where ra: "ra = (r, a)" by (cases ra)
  define e' where "e' = fst (step ats r a e)"
  define d' where "d' = fst (update_log_dict ats (real_of_int (snd t)) (log_dict e))"
  from step_records [OF assms Cons.prems(2,1) ts(2) [unfolded ra]]
  have s: "log_dict e' = d'" "snd (update_log_dict ats (real_of_int (snd t)) (log_dict e)) = None"
    "reset_next_step e' = check_if_episode_ended r"
    by (simp_all add: e'_def d'_def)
  have u: "update_log_dict ats (real_of_int (snd t)) (log_dict e) = (d', None)"
    using s(2) by (simp add: d'_def prod_eq_iff)
  have x: "exec ats (map (\<lambda>ra. Step (fst ra) (snd ra)) (ra # ras)) e =
      exec ats (map (\<lambda>ra. Step (fst ra) (snd ra)) ras) e'"
    by (simp add: ra e'_def)
  have y: "update_log_dict_all ats (map (\<lambda>t. real_of_int (snd t)) ts) (log_dict e) =
      update_log_dict_all ats (map (\<lambda>t. real_of_int (snd t)) ts') d'"
    using u by (simp add: ts(1))
  show ?case
  proof (cases ras)
    case Nil
    with ts(3) have "ts' = []" by simp
    with Nil x y s(1) show ?thesis by simp
  next
    case (Cons rb rbs)
    with Cons.prems(4) ra have "\<not> check_if_episode_ended r"
      by simp
    with s(3) have p: "\<not> reset_next_step e'" by simp
    have k: "ledger_keys ats \<subseteq> dom (log_dict e')"
      using Cons.prems(2) by (simp add: e'_def dom_step)
    have b: "list_all (\<lambda>ra. \<not> check_if_episode_ended (fst ra)) (butlast ras)"
      using Cons.prems(4) Cons by simp
    from Cons.IH [OF p k ts(3) b] x y s(1) show ?thesis
      by simp
  qed
qed

lemma recorded_members: "list_all2 (recorded ats) ras ts \<Longrightarrow> set ts \<subseteq> set ats"
  by (induction rule: list_all2_induct) (simp_all add: recorded_def)

text \<open>
  The ratios of one prefix.
\<close>

lemma flush_ratios_result:
  "d (steps_key p) = Some n \<Longrightarrow> n \<noteq> 0 \<Longrightarrow>
   (\<forall>u \<in> set us. d (type_key p (fst u)) \<noteq> None) \<Longrightarrow>
   (\<forall>a \<in> set us. \<forall>b \<in> set us. fst a \<noteq> ''ratio_'' @ fst b) \<Longrightarrow>
   \<not> isl (flush_ratios fdiv p us d)
   \<and> (\<forall>k. k \<notin> ratio_key p ` fst ` set us \<longrightarrow> projr (flush_ratios fdiv p us d) k = d k)
   \<and> (\<forall>u \<in> set us. projr (flush_ratios fdiv p us d) (ratio_key p (fst u)) =
         Some (fdiv (the (d (type_key p (fst u)))) n))"
proof (induction us arbitrary: d)
  case Nil
  then show ?case by simp
next
  case (Cons u us)
  from Cons.prems(3) obtain c where c: "d (type_key p (fst u)) = Some c"
    by auto
  define d1 where "d1 = d(ratio_key p (fst u) \<mapsto> fdiv c n)"
  define res where "res = flush_ratios fdiv p us d1"
  have r: "flush_ratios fdiv p (u # us) d = res"
    using c Cons.prems(1,2) by (simp add: res_def d1_def)
  have s1: "d1 (steps_key p) = Some n"
    using Cons.prems(1) by (simp add: d1_def key_facts)
  have same: "d1 (type_key p (fst v)) = d (type_key p (fst v))" if "v \<in> set (u # us)" for v
  proof -
    have "u \<in> set (u # us)" by simp
    with Cons.prems(4) that have "fst v \<noteq> ''ratio_'' @ fst u"
      by blast
    then show ?thesis
      by (simp add: d1_def key_facts)
  qed
  have t1: "\<forall>v \<in> set us. d1 (type_key p (fst v)) \<noteq> None"
    using Cons.prems(3) same by simp
  have n1: "\<forall>a \<in> set us. \<forall>b \<in> set us. fst a \<noteq> ''ratio_'' @ fst b"
    using Cons.prems(4) by simp
  note ih = Cons.IH [OF s1 Cons.prems(2) t1 n1, folded res_def]
  have a: "\<not> isl res"
    using ih by (rule conjunct1)
  have b: "projr res k = d k" if "k \<notin> ratio_key p ` fst ` set (u # us)" for k
  proof -
    from that have "k \<notin> ratio_key p ` fst ` set us" "k \<noteq> ratio_key p (fst u)"
      by auto
    with ih show ?thesis
      by (simp add: d1_def)
  qed
  have cc: "projr res (ratio_key p (fst v)) = Some (fdiv (the (d (type_key p (fst v)))) n)"
    if v: "v \<in> set (u # us)" for v
  proof (cases "ratio_key p (fst v) \<in> ratio_key p ` fst ` set us")
    case True
    then obtain w where w: "w \<in> set us" "fst w = fst v"
      by (auto simp add: key_facts)
    from ih w(1) have "projr res (ratio_key p (fst w)) = Some (fdiv (the (d1 (type_key p (fst w)))) n)"
      by blast
    with w same [of w] show ?thesis
      by simp
  next
    case False
    with v have "v = u \<or> fst v = fst u"
      by auto
    then have e: "fst v = fst u"
      by auto
    from False ih have "projr res (ratio_key p (fst v)) = d1 (ratio_key p (fst v))"
      by blast
    with e c show ?thesis
      by (simp add: d1_def)
  qed
  from a b cc show ?case
    unfolding r by blast
qed

lemma flush_prefixes_stage:
  assumes "d (steps_key p) = Some n"
    and "\<forall>u \<in> set ats. d (type_key p (fst u)) \<noteq> None"
    and "\<forall>a \<in> set ats. \<forall>b \<in> set ats. fst a \<noteq> ''ratio_'' @ fst b"
  shows "flush_prefixes fdiv (p # ps) ats d ws =
     flush_prefixes fdiv ps ats (if n = 0 then d else projr (flush_ratios fdiv p ats d))
       (if n = 0 then ws @ [p @ ''_steps is 0. Skipping ratio logs.''] else ws)"
proof (cases "n = 0")
  case True
  with assms(1) show ?thesis by simp
next
  case False
  from flush_ratios_result [OF assms(1) False assms(2,3)]
  have "\<not> isl (flush_ratios fdiv p ats d)"
    by (rule conjunct1)
  then obtain d' where "flush_ratios fdiv p ats d = Inr d'"
    by (cases "flush_ratios fdiv p ats d") simp_all
  with False assms(1) show ?thesis
    by simp
qed

text \<open>
  No division by zero: the ratios of a prefix are computed only when its number of steps is not zero.
\<close>

lemma flush_ratios_no_zero_division:
  "d (steps_key p) \<noteq> Some 0 \<Longrightarrow> flush_ratios fdiv p us d \<noteq> Inl ZeroDivisionError"
proof (induction us arbitrary: d)
  case Nil
  show ?case by simp
next
  case (Cons u us)
  show ?case
  proof (cases "d (type_key p (fst u))")
    case None
    then show ?thesis by simp
  next
    case c: (Some c)
    show ?thesis
    proof (cases "d (steps_key p)")
      case None
      with c show ?thesis by simp
    next
      case (Some n)
      with Cons.prems have n: "n \<noteq> 0" by simp
      have "(d(ratio_key p (fst u) \<mapsto> fdiv c n)) (steps_key p) \<noteq> Some 0"
        using Cons.prems by (simp add: key_facts)
      moreover have "flush_ratios fdiv p (u # us) d =
          flush_ratios fdiv p us (d(ratio_key p (fst u) \<mapsto> fdiv c n))"
        using c Some n by simp
      ultimately show ?thesis
        by (simp only: Cons.IH not_False_eq_True)
    qed
  qed
qed

lemma flush_prefixes_no_zero_division:
  "snd (flush_prefixes fdiv ps ats d ws) \<noteq> Inl ZeroDivisionError"
proof (induction ps arbitrary: d ws)
  case Nil
  show ?case by simp
next
  case (Cons p ps)
  show ?case
  proof (cases "d (steps_key p)")
    case None
    then show ?thesis by simp
  next
    case (Some n)
    show ?thesis
    proof (cases "n = 0")
      case True
      with Some Cons.IH show ?thesis by simp
    next
      case False
      with Some have "d (steps_key p) \<noteq> Some 0" by simp
      from flush_ratios_no_zero_division [where d = d and p = p and us = ats and fdiv = fdiv, OF this]
        Some False Cons.IH
      show ?thesis
        by (cases "flush_ratios fdiv p ats d") simp_all
    qed
  qed
qed

lemma android_logs_no_zero_division:
  "snd (android_logs fdiv ats coord e) \<noteq> Inl ZeroDivisionError"
  using flush_prefixes_no_zero_division [of fdiv log_prefixes ats "log_dict e ++ coord" "[]"]
  by (cases "flush_prefixes fdiv log_prefixes ats (log_dict e ++ coord) []")
     (simp add: android_logs_def flush_log_dict_def Let_def called_def)

lemma sum_count_list_members:
  assumes "distinct ats" "set ts \<subseteq> set ats"
  shows "(\<Sum>t\<leftarrow>ats. real (count_list ts t)) = real (length ts)"
proof -
  have "(\<Sum>t\<leftarrow>ats. real (count_list ts t)) = real (\<Sum>t\<leftarrow>ats. count_list ts t)"
    by (simp add: sum_list_of_nat [symmetric] comp_def)
  also have "(\<Sum>t\<leftarrow>ats. count_list ts t) = sum (count_list ts) (set ats)"
    using assms(1) by (rule sum_list_distinct_conv_sum_set)
  also have "\<dots> = length ts"
    using assms(2) by (simp add: sum_count_set)
  finally show ?thesis .
qed

text \<open>
  The exact quotients of the counts by the number of steps sum to \<open>1\<close>; the quotients the
  division of floats returns sum to \<open>1\<close> up to its relative error.
\<close>

lemma exact_ratios_sum:
  assumes "distinct ats" "set ts \<subseteq> set ats" "ts \<noteq> []"
  shows "(\<Sum>t\<leftarrow>ats. real (count_list ts t) / real (length ts)) = 1"
proof -
  have "(\<Sum>t\<leftarrow>ats. real (count_list ts t) / real (length ts)) =
      (\<Sum>t\<leftarrow>ats. real (count_list ts t) * inverse (real (length ts)))"
    by (simp add: divide_inverse)
  also have "\<dots> = (\<Sum>t\<leftarrow>ats. real (count_list ts t)) * inverse (real (length ts))"
    by (rule sum_list_mult_const)
  also have "\<dots> = real (length ts) * inverse (real (length ts))"
    by (simp add: sum_count_list_members [OF assms(1,2)])
  also have "\<dots> = 1"
    using assms(3) by simp
  finally show ?thesis .
qed

lemma ratio_error:
  assumes "accurate_division fdiv u" "ts \<noteq> []" "length ts \<le> 2 ^ 53"
  shows "\<bar>fdiv (real (count_list ts t)) (real (length ts))
           - real (count_list ts t) / real (length ts)\<bar>
         \<le> u * (real (count_list ts t) / real (length ts))"
proof -
  have "count_list ts t \<le> length ts"
    by (rule count_le_length)
  moreover have "0 < length ts"
    using assms(2) by simp
  ultimately show ?thesis
    using assms(1,3) unfolding accurate_division_def by blast
qed

lemma ratios_sum_bound:
  assumes acc: "accurate_division fdiv u" and "distinct ats" "set ts \<subseteq> set ats" "ts \<noteq> []"
    and "length ts \<le> 2 ^ 53"
  shows "\<bar>(\<Sum>t\<leftarrow>ats. fdiv (real (count_list ts t)) (real (length ts))) - 1\<bar> \<le> u"
proof -
  define q where "q t = real (count_list ts t) / real (length ts)" for t
  define err where "err t = fdiv (real (count_list ts t)) (real (length ts)) - q t" for t
  have q1: "(\<Sum>t\<leftarrow>ats. q t) = 1"
    unfolding q_def using assms(2,3,4) by (rule exact_ratios_sum)
  have b: "\<bar>err t\<bar> \<le> u * q t" for t
    unfolding err_def q_def using acc assms(4,5) by (rule ratio_error)
  have "(\<Sum>t\<leftarrow>ats. fdiv (real (count_list ts t)) (real (length ts))) = (\<Sum>t\<leftarrow>ats. q t + err t)"
    by (simp add: err_def)
  also have "\<dots> = (\<Sum>t\<leftarrow>ats. q t) + (\<Sum>t\<leftarrow>ats. err t)"
    by (rule sum_list_addf)
  finally have "(\<Sum>t\<leftarrow>ats. fdiv (real (count_list ts t)) (real (length ts))) - 1 = (\<Sum>t\<leftarrow>ats. err t)"
    using q1 by simp
  moreover have "\<bar>\<Sum>t\<leftarrow>ats. err t\<bar> \<le> (\<Sum>t\<leftarrow>ats. \<bar>err t\<bar>)"
    using sum_list_abs [of "map err ats"] by (simp add: comp_def)
  moreover have "(\<Sum>t\<leftarrow>ats. \<bar>err t\<bar>) \<le> (\<Sum>t\<leftarrow>ats. u * q t)"
    by (rule sum_list_mono) (rule b)
  moreover have "(\<Sum>t\<leftarrow>ats. u * q t) = u"
    using q1 by (simp add: sum_list_const_mult)
  ultimately show ?thesis
    by simp
qed


text \<open>
  The export on counters that have all their keys: what it writes for each prefix.
\<close>

lemma flush_prefixes_scopes:
  assumes clash: "\<forall>a \<in> set ats. \<forall>b \<in> set ats. fst a \<noteq> ''ratio_'' @ fst b"
    and keys: "ledger_keys ats \<subseteq> dom d"
  shows "\<exists>ws out. flush_prefixes fdiv log_prefixes ats d [] = (ws, Inr out)
     \<and> (\<forall>p \<in> set log_prefixes.
          out (steps_key p) = d (steps_key p)
          \<and> (d (steps_key p) = Some 0 \<longrightarrow>
               (\<forall>t \<in> set ats. out (ratio_key p (fst t)) = d (ratio_key p (fst t)))
               \<and> p @ ''_steps is 0. Skipping ratio logs.'' \<in> set ws)
          \<and> (d (steps_key p) \<noteq> Some 0 \<longrightarrow>
               (\<forall>t \<in> set ats. out (ratio_key p (fst t)) =
                   Some (fdiv (the (d (type_key p (fst t)))) (the (d (steps_key p)))))
               \<and> p @ ''_steps is 0. Skipping ratio logs.'' \<notin> set ws))"
proof -
  have present: "\<forall>u \<in> set ats. d (type_key p (fst u)) \<noteq> None" if "p \<in> set log_prefixes" for p
    using keys ledger_keys_type [OF that] by blast
  obtain nT where nT: "d (steps_key ''androidenv_total'') = Some nT"
    using keys ledger_keys_steps [OF log_prefixes_mem(1), of ats] by blast
  obtain nE where nE: "d (steps_key ''androidenv_episode'') = Some nE"
    using keys ledger_keys_steps [OF log_prefixes_mem(2), of ats] by blast
  define dmid where "dmid = (if nT = 0 then d else projr (flush_ratios fdiv ''androidenv_total'' ats d))"
  define ws1 where "ws1 = (if nT = 0 then [] @ [''androidenv_total'' @ ''_steps is 0. Skipping ratio logs.'']
                           else [])"
  define out where "out = (if nE = 0 then dmid else projr (flush_ratios fdiv ''androidenv_episode'' ats dmid))"
  define ws2 where "ws2 = (if nE = 0 then ws1 @ [''androidenv_episode'' @ ''_steps is 0. Skipping ratio logs.'']
                           else ws1)"
  have mid: "dmid k = d k" if "k \<notin> ratio_key ''androidenv_total'' ` fst ` set ats" for k
  proof (cases "nT = 0")
    case True
    then show ?thesis by (simp add: dmid_def)
  next
    case False
    from flush_ratios_result [OF nT False present [OF log_prefixes_mem(1)] clash] that
    show ?thesis
      by (simp add: dmid_def False)
  qed
  have other: "steps_key ''androidenv_episode'' \<notin> ratio_key ''androidenv_total'' ` fst ` set ats"
    "type_key ''androidenv_episode'' n \<notin> ratio_key ''androidenv_total'' ` fst ` set ats"
    "ratio_key ''androidenv_episode'' n \<notin> ratio_key ''androidenv_total'' ` fst ` set ats"
    "steps_key ''androidenv_total'' \<notin> ratio_key ''androidenv_total'' ` fst ` set ats" for n
    by (auto simp add: key_facts_scopes key_facts)
  have midE: "dmid (steps_key ''androidenv_episode'') = Some nE"
    using mid [OF other(1)] nE by simp
  have midT: "dmid (type_key ''androidenv_episode'' (fst t)) = d (type_key ''androidenv_episode'' (fst t))"
    for t
    using mid [OF other(2)] by simp
  have midR: "dmid (ratio_key ''androidenv_episode'' (fst t)) = d (ratio_key ''androidenv_episode'' (fst t))"
    for t
    using mid [OF other(3)] by simp
  have presE: "\<forall>u \<in> set ats. dmid (type_key ''androidenv_episode'' (fst u)) \<noteq> None"
    unfolding midT using log_prefixes_mem(2) by (rule present)
  have last: "out k = dmid k" if "k \<notin> ratio_key ''androidenv_episode'' ` fst ` set ats" for k
  proof (cases "nE = 0")
    case True
    then show ?thesis by (simp add: out_def)
  next
    case False
    from flush_ratios_result [OF midE False presE clash] that
    show ?thesis
      by (simp add: out_def False)
  qed
  have others: "steps_key ''androidenv_total'' \<notin> ratio_key ''androidenv_episode'' ` fst ` set ats"
    "ratio_key ''androidenv_total'' n \<notin> ratio_key ''androidenv_episode'' ` fst ` set ats"
    "steps_key ''androidenv_episode'' \<notin> ratio_key ''androidenv_episode'' ` fst ` set ats" for n
    by (auto simp add: key_facts_total key_facts)
  have s1: "flush_prefixes fdiv log_prefixes ats d [] =
      flush_prefixes fdiv [''androidenv_episode''] ats dmid ws1"
    unfolding log_prefixes_def dmid_def ws1_def
    by (rule flush_prefixes_stage [OF nT present [OF log_prefixes_mem(1)] clash])
  have s2: "flush_prefixes fdiv [''androidenv_episode''] ats dmid ws1 = flush_prefixes fdiv [] ats out ws2"
    unfolding out_def ws2_def
    by (rule flush_prefixes_stage [OF midE presE clash])
  have res: "flush_prefixes fdiv log_prefixes ats d [] = (ws2, Inr out)"
    using s1 s2 by simp
  have wsT: "''androidenv_total'' @ ''_steps is 0. Skipping ratio logs.'' \<in> set ws2 \<longleftrightarrow> nT = 0"
    by (simp add: ws2_def ws1_def)
  have wsE: "''androidenv_episode'' @ ''_steps is 0. Skipping ratio logs.'' \<in> set ws2 \<longleftrightarrow> nE = 0"
    by (simp add: ws2_def ws1_def)
  have stT: "out (steps_key ''androidenv_total'') = d (steps_key ''androidenv_total'')"
    using last [OF others(1)] mid [OF other(4)] by simp
  have stE: "out (steps_key ''androidenv_episode'') = d (steps_key ''androidenv_episode'')"
    using last [OF others(3)] mid [OF other(1)] by simp
  have raT0: "out (ratio_key ''androidenv_total'' (fst t)) = d (ratio_key ''androidenv_total'' (fst t))"
    if "nT = 0" for t
    using last [OF others(2)] that by (simp add: dmid_def)
  have raT: "out (ratio_key ''androidenv_total'' (fst t)) =
      Some (fdiv (the (d (type_key ''androidenv_total'' (fst t)))) nT)"
    if "nT \<noteq> 0" "t \<in> set ats" for t
  proof -
    from flush_ratios_result [OF nT that(1) present [OF log_prefixes_mem(1)] clash] that(2)
    have "projr (flush_ratios fdiv ''androidenv_total'' ats d) (ratio_key ''androidenv_total'' (fst t)) =
        Some (fdiv (the (d (type_key ''androidenv_total'' (fst t)))) nT)"
      by blast
    with last [OF others(2)] that(1) show ?thesis
      by (simp add: dmid_def)
  qed
  have raE0: "out (ratio_key ''androidenv_episode'' (fst t)) = d (ratio_key ''androidenv_episode'' (fst t))"
    if "nE = 0" for t
    using that midR by (simp add: out_def)
  have raE: "out (ratio_key ''androidenv_episode'' (fst t)) =
      Some (fdiv (the (d (type_key ''androidenv_episode'' (fst t)))) nE)"
    if "nE \<noteq> 0" "t \<in> set ats" for t
  proof -
    from flush_ratios_result [OF midE that(1) presE clash] that(2)
    have "projr (flush_ratios fdiv ''androidenv_episode'' ats dmid) (ratio_key ''androidenv_episode'' (fst t)) =
        Some (fdiv (the (dmid (type_key ''androidenv_episode'' (fst t)))) nE)"
      by blast
    with that(1) show ?thesis
      by (simp add: out_def midT)
  qed
  have "out (steps_key p) = d (steps_key p)
          \<and> (d (steps_key p) = Some 0 \<longrightarrow>
               (\<forall>t \<in> set ats. out (ratio_key p (fst t)) = d (ratio_key p (fst t)))
               \<and> p @ ''_steps is 0. Skipping ratio logs.'' \<in> set ws2)
          \<and> (d (steps_key p) \<noteq> Some 0 \<longrightarrow>
               (\<forall>t \<in> set ats. out (ratio_key p (fst t)) =
                   Some (fdiv (the (d (type_key p (fst t)))) (the (d (steps_key p)))))
               \<and> p @ ''_steps is 0. Skipping ratio logs.'' \<notin> set ws2)"
    if "p \<in> set log_prefixes" for p
  proof -
    from that have "p = ''androidenv_total'' \<or> p = ''androidenv_episode''"
      by (simp add: log_prefixes_def)
    then show ?thesis
    proof
      assume p: "p = ''androidenv_total''"
      show ?thesis
      proof (cases "nT = 0")
        case True
        show ?thesis
          using wsT by (simp add: p stT raT0 [OF True] nT True)
      next
        case False
        show ?thesis
          using wsT by (simp add: p stT raT [OF False] nT False)
      qed
    next
      assume p: "p = ''androidenv_episode''"
      show ?thesis
      proof (cases "nE = 0")
        case True
        show ?thesis
          using wsE by (simp add: p stE raE0 [OF True] nE True)
      next
        case False
        show ?thesis
          using wsE by (simp add: p stE raE [OF False] nE False)
      qed
    qed
  qed
  with res show ?thesis
    by blast
qed

text \<open>
  The export on an object any sequence of calls has left: for each prefix, the ratios or
  the warning.
\<close>

lemma android_logs_scopes:
  assumes wf: "well_formed_enum ats"
    and coord: "dom coord \<inter> ledger_keys ats = {}"
    and keys: "dom (log_dict e) = ledger_keys ats"
  shows "\<exists>out ws. android_logs fdiv ats coord e =
         (e\<lparr>collab_calls := collab_calls e @ Coordinator_log_dict # map Logging_warning ws\<rparr>, Inr out)
     \<and> (\<forall>p \<in> set log_prefixes.
          out (steps_key p) = log_dict e (steps_key p)
          \<and> (log_dict e (steps_key p) = Some 0 \<longrightarrow>
               (\<forall>t \<in> set ats. out (ratio_key p (fst t)) = coord (ratio_key p (fst t)))
               \<and> p @ ''_steps is 0. Skipping ratio logs.'' \<in> set ws)
          \<and> (log_dict e (steps_key p) \<noteq> Some 0 \<longrightarrow>
               (\<forall>t \<in> set ats. out (ratio_key p (fst t)) =
                   Some (fdiv (the (log_dict e (type_key p (fst t)))) (the (log_dict e (steps_key p)))))
               \<and> p @ ''_steps is 0. Skipping ratio logs.'' \<notin> set ws))"
proof -
  from wf have clash: "\<forall>a \<in> set ats. \<forall>b \<in> set ats. fst a \<noteq> ''ratio_'' @ fst b"
    by (auto simp add: well_formed_enum_def list_all_iff)
  define dm where "dm = log_dict e ++ coord"
  have same: "dm k = log_dict e k" if "k \<in> ledger_keys ats" for k
  proof -
    from coord that have "coord k = None" by auto
    then show ?thesis by (simp add: dm_def map_add_def)
  qed
  have km: "ledger_keys ats \<subseteq> dom dm"
    using keys by (auto simp add: dm_def)
  have unwritten: "dm (ratio_key p (fst t)) = coord (ratio_key p (fst t))"
    if "t \<in> set ats" "p \<in> set log_prefixes" for t p
  proof -
    from ratio_key_not_ledger_scope [OF wf that] keys
    have "log_dict e (ratio_key p (fst t)) = None"
      by auto
    then show ?thesis
      by (simp add: dm_def map_add_def split: option.splits)
  qed
  from flush_prefixes_scopes [OF clash km, of fdiv] obtain ws out where
    f: "flush_prefixes fdiv log_prefixes ats dm [] = (ws, Inr out)"
    and g: "\<forall>p \<in> set log_prefixes.
          out (steps_key p) = dm (steps_key p)
          \<and> (dm (steps_key p) = Some 0 \<longrightarrow>
               (\<forall>t \<in> set ats. out (ratio_key p (fst t)) = dm (ratio_key p (fst t)))
               \<and> p @ ''_steps is 0. Skipping ratio logs.'' \<in> set ws)
          \<and> (dm (steps_key p) \<noteq> Some 0 \<longrightarrow>
               (\<forall>t \<in> set ats. out (ratio_key p (fst t)) =
                   Some (fdiv (the (dm (type_key p (fst t)))) (the (dm (steps_key p)))))
               \<and> p @ ''_steps is 0. Skipping ratio logs.'' \<notin> set ws)"
    by blast
  have a: "android_logs fdiv ats coord e =
         (e\<lparr>collab_calls := collab_calls e @ Coordinator_log_dict # map Logging_warning ws\<rparr>, Inr out)"
    using f by (simp add: android_logs_def flush_log_dict_def Let_def called_def dm_def)
  have "out (steps_key p) = log_dict e (steps_key p)
          \<and> (log_dict e (steps_key p) = Some 0 \<longrightarrow>
               (\<forall>t \<in> set ats. out (ratio_key p (fst t)) = coord (ratio_key p (fst t)))
               \<and> p @ ''_steps is 0. Skipping ratio logs.'' \<in> set ws)
          \<and> (log_dict e (steps_key p) \<noteq> Some 0 \<longrightarrow>
               (\<forall>t \<in> set ats. out (ratio_key p (fst t)) =
                   Some (fdiv (the (log_dict e (type_key p (fst t)))) (the (log_dict e (steps_key p)))))
               \<and> p @ ''_steps is 0. Skipping ratio logs.'' \<notin> set ws)"
    if p: "p \<in> set log_prefixes" for p
  proof -
    have s: "dm (steps_key p) = log_dict e (steps_key p)"
      using same [OF ledger_keys_steps [OF p]] .
    have t: "dm (type_key p (fst t)) = log_dict e (type_key p (fst t))" if "t \<in> set ats" for t
      using same [OF ledger_keys_type [OF p that]] .
    from g p have h: "out (steps_key p) = dm (steps_key p)
          \<and> (dm (steps_key p) = Some 0 \<longrightarrow>
               (\<forall>t \<in> set ats. out (ratio_key p (fst t)) = dm (ratio_key p (fst t)))
               \<and> p @ ''_steps is 0. Skipping ratio logs.'' \<in> set ws)
          \<and> (dm (steps_key p) \<noteq> Some 0 \<longrightarrow>
               (\<forall>t \<in> set ats. out (ratio_key p (fst t)) =
                   Some (fdiv (the (dm (type_key p (fst t)))) (the (dm (steps_key p)))))
               \<and> p @ ''_steps is 0. Skipping ratio logs.'' \<notin> set ws)"
      by blast
    show ?thesis
      using h unwritten [OF _ p] t unfolding s by simp
  qed
  with a show ?thesis
    by blast
qed

text \<open>
  A call that returns \<open>FIRST\<close> has gone through \<open>reset\<close>, be it a call of \<open>reset\<close> or a
  call of \<open>step\<close> while the reset was pending.
\<close>

lemma reset_counters: "log_dict (fst (reset r e)) = reset_log_dict (log_dict e)"
  by (simp add: reset_def Let_def called_def split: option.splits)

lemma FIRST_starts_episode:
  assumes "returned_type (snd (do_call ats c e)) = Some FIRST"
  shows "log_dict (fst (do_call ats c e)) = reset_log_dict (log_dict e)
     \<and> \<not> reset_next_step (fst (do_call ats c e))"
proof (cases c)
  case (Reset r)
  with assms have "get_current_extras r \<noteq> None"
    by (auto simp add: reset_returned_type split: if_splits)
  then show ?thesis
    unfolding Reset by (auto simp add: reset_counters reset_pending)
next
  case (Step r a)
  define e3 where "e3 = called Coordinator_check_timeout
               (called Coordinator_should_restart (e\<lparr>latest_action := a\<rparr>))"
  have o: "log_dict e3 = log_dict e" "reset_next_step e3 = reset_next_step e"
    by (simp_all add: e3_def called_def)
  have q1: "\<not> should_restart r"
  proof
    assume "should_restart r"
    with assms show False
      unfolding Step by (auto simp add: step_restart_eq returned_type_def split: option.splits)
  qed
  have q2: "\<not> check_timeout r"
  proof
    assume "check_timeout r"
    with assms q1 show False
      unfolding Step by (auto simp add: step_timeout_eq returned_type_def split: option.splits)
  qed
  show ?thesis
  proof (cases "reset_next_step e")
    case True
    have s: "step ats r a e = reset r e3"
      using q1 q2 True by (simp add: step_quiet e3_def)
    from assms have "get_current_extras r \<noteq> None"
      unfolding Step by (auto simp add: s reset_returned_type split: if_splits)
    then have "log_dict (fst (reset r e3)) = reset_log_dict (log_dict e3)
        \<and> \<not> reset_next_step (fst (reset r e3))"
      by (auto simp add: reset_counters reset_pending)
    then show ?thesis
      unfolding Step by (simp add: s o)
  next
    case False
    have s: "step ats r a e = step_execute ats r a e3"
      using q1 q2 False by (simp add: step_quiet e3_def)
    from assms obtain ts where ts: "snd (step_execute ats r a e3) = Inr ts" "step_type ts = FIRST"
      unfolding Step by (auto simp add: s returned_type_def split: sum.splits)
    from step_execute_pending [OF ts(1)] ts(2) show ?thesis
      by simp
  qed
qed

text \<open>
  Steps ended by a restart or a timeout change no counter of a prefix.
\<close>

lemma exec_terminated_counters:
  "list_all infrastructure_terminated ends \<Longrightarrow> k \<noteq> ''restart_count'' \<Longrightarrow>
     k \<noteq> ''reset_count_step_timeout'' \<Longrightarrow> log_dict (exec ats ends e) k = log_dict e k"
proof (induction ends arbitrary: e)
  case Nil
  show ?case by simp
next
  case (Cons c ends)
  from Cons.prems(1) obtain r a where c: "c = Step r a" "should_restart r \<or> check_timeout r"
    by (cases c) (simp_all add: infrastructure_terminated_def)
  from Cons.prems(1) have "list_all infrastructure_terminated ends"
    by simp
  from Cons.IH [OF this Cons.prems(2,3)] step_terminated_counters [OF c(2) Cons.prems(2,3)]
  show ?case
    by (simp add: c(1))
qed


text \<open>
  The export on an object any sequence of calls has left, for one prefix.
\<close>

lemma android_logs_scope:
  assumes wf: "well_formed_enum ats"
    and coord: "dom coord \<inter> ledger_keys ats = {}"
    and keys: "dom (log_dict e) = ledger_keys ats"
    and p: "p \<in> set log_prefixes"
  shows "\<exists>out n. snd (android_logs fdiv ats coord e) = Inr out
     \<and> log_dict e (steps_key p) = Some n \<and> out (steps_key p) = Some n
     \<and> (n = 0 \<longrightarrow>
          (\<forall>t \<in> set ats. out (ratio_key p (fst t)) = coord (ratio_key p (fst t)))
          \<and> Logging_warning (p @ ''_steps is 0. Skipping ratio logs.'')
               \<in> set (drop (length (collab_calls e)) (collab_calls (fst (android_logs fdiv ats coord e)))))
     \<and> (n \<noteq> 0 \<longrightarrow>
          (\<forall>t \<in> set ats. \<exists>c. log_dict e (type_key p (fst t)) = Some c
                \<and> out (ratio_key p (fst t)) = Some (fdiv c n))
          \<and> Logging_warning (p @ ''_steps is 0. Skipping ratio logs.'')
               \<notin> set (drop (length (collab_calls e)) (collab_calls (fst (android_logs fdiv ats coord e)))))"
proof -
  from android_logs_scopes [OF wf coord keys, of fdiv] obtain out ws where
    a: "android_logs fdiv ats coord e =
         (e\<lparr>collab_calls := collab_calls e @ Coordinator_log_dict # map Logging_warning ws\<rparr>, Inr out)"
    and g: "\<forall>p \<in> set log_prefixes.
          out (steps_key p) = log_dict e (steps_key p)
          \<and> (log_dict e (steps_key p) = Some 0 \<longrightarrow>
               (\<forall>t \<in> set ats. out (ratio_key p (fst t)) = coord (ratio_key p (fst t)))
               \<and> p @ ''_steps is 0. Skipping ratio logs.'' \<in> set ws)
          \<and> (log_dict e (steps_key p) \<noteq> Some 0 \<longrightarrow>
               (\<forall>t \<in> set ats. out (ratio_key p (fst t)) =
                   Some (fdiv (the (log_dict e (type_key p (fst t)))) (the (log_dict e (steps_key p)))))
               \<and> p @ ''_steps is 0. Skipping ratio logs.'' \<notin> set ws)"
    by blast
  from g p have h: "out (steps_key p) = log_dict e (steps_key p)"
    "log_dict e (steps_key p) = Some 0 \<longrightarrow>
               (\<forall>t \<in> set ats. out (ratio_key p (fst t)) = coord (ratio_key p (fst t)))
               \<and> p @ ''_steps is 0. Skipping ratio logs.'' \<in> set ws"
    "log_dict e (steps_key p) \<noteq> Some 0 \<longrightarrow>
               (\<forall>t \<in> set ats. out (ratio_key p (fst t)) =
                   Some (fdiv (the (log_dict e (type_key p (fst t)))) (the (log_dict e (steps_key p)))))
               \<and> p @ ''_steps is 0. Skipping ratio logs.'' \<notin> set ws"
    by blast+
  obtain n where n: "log_dict e (steps_key p) = Some n"
    using keys ledger_keys_steps [OF p, of ats] by blast
  have w: "Logging_warning s \<in> set (drop (length (collab_calls e))
        (collab_calls (fst (android_logs fdiv ats coord e)))) \<longleftrightarrow> s \<in> set ws" for s
    by (auto simp add: a)
  have r: "snd (android_logs fdiv ats coord e) = Inr out"
    by (simp add: a)
  have z: "n = 0 \<longrightarrow>
          (\<forall>t \<in> set ats. out (ratio_key p (fst t)) = coord (ratio_key p (fst t)))
          \<and> Logging_warning (p @ ''_steps is 0. Skipping ratio logs.'')
               \<in> set (drop (length (collab_calls e)) (collab_calls (fst (android_logs fdiv ats coord e))))"
    unfolding w using h(2) n by simp
  have nz: "n \<noteq> 0 \<longrightarrow>
          (\<forall>t \<in> set ats. \<exists>c. log_dict e (type_key p (fst t)) = Some c
                \<and> out (ratio_key p (fst t)) = Some (fdiv c n))
          \<and> Logging_warning (p @ ''_steps is 0. Skipping ratio logs.'')
               \<notin> set (drop (length (collab_calls e)) (collab_calls (fst (android_logs fdiv ats coord e))))"
  proof
    assume "n \<noteq> 0"
    with h(3) n have i: "\<forall>t \<in> set ats. out (ratio_key p (fst t)) =
                   Some (fdiv (the (log_dict e (type_key p (fst t)))) n)"
      "p @ ''_steps is 0. Skipping ratio logs.'' \<notin> set ws"
      by simp_all
    have "\<exists>c. log_dict e (type_key p (fst t)) = Some c
                \<and> out (ratio_key p (fst t)) = Some (fdiv c n)" if t: "t \<in> set ats" for t
    proof -
      obtain c where c: "log_dict e (type_key p (fst t)) = Some c"
        using keys ledger_keys_type [OF p t] by blast
      with i(1) t show ?thesis
        by simp
    qed
    with i(2) show "(\<forall>t \<in> set ats. \<exists>c. log_dict e (type_key p (fst t)) = Some c
                \<and> out (ratio_key p (fst t)) = Some (fdiv c n))
          \<and> Logging_warning (p @ ''_steps is 0. Skipping ratio logs.'')
               \<notin> set (drop (length (collab_calls e)) (collab_calls (fst (android_logs fdiv ats coord e))))"
      unfolding w by blast
  qed
  from r n h(1) z nz show ?thesis
    by (intro exI [of _ out] exI [of _ n] conjI) simp_all
qed

text \<open>
  Claim C8.  Take a new object and any sequence of calls, then a call that returns
  \<open>FIRST\<close> (a \<open>reset\<close>, or a \<open>step\<close> while the reset is pending), then \<open>N\<close> calls of
  \<open>step\<close> that are executed, of action types \<open>ts\<close>, the episode ending at the last of
  them at the earliest, then any number of steps ended by a restart or a timeout.  When no
  key of the coordinator's dictionary is a key of the counters, \<open>android_logs\<close> then
  returns a dictionary in which the episode's number of steps is \<open>N\<close>.  When \<open>N > 0\<close>,
  the episode's ratio of every action type is what the division of floats gives for the
  number of its occurrences in \<open>ts\<close> and \<open>N\<close>; for a division of relative error at most
  \<open>u\<close> on whole numbers up to \<open>2 ^ 53\<close>, and \<open>N\<close> at most \<open>2 ^ 53\<close>, every ratio is within
  that relative error of the exact quotient, and the ratios of all action types sum to \<open>1\<close>
  up to \<open>u\<close>.  When \<open>N = 0\<close>, no ratio of the episode is written and the warning is logged.

  For either prefix, after any sequence of calls on a new object: when the number of steps
  of the prefix is \<open>0\<close>, \<open>android_logs\<close> writes no ratio of that prefix (each key holds
  what the coordinator gave it, if anything) and logs the warning of that prefix; when it
  is not \<open>0\<close>, it writes for every action type the count divided by the number of steps,
  and logs no warning of that prefix.  And \<open>android_logs\<close> never raises
  \<open>ZeroDivisionError\<close>, whatever the division, the counters and the coordinator's
  dictionary.
\<close>

theorem flush_after_recorded_steps:
  assumes wf: "well_formed_enum ats"
    and acc: "accurate_division fdiv u"
    and first: "returned_type (snd (do_call ats c0 (exec ats cs (init ats)))) = Some FIRST"
    and recd: "list_all2 (recorded ats) ras ts"
    and running: "list_all (\<lambda>ra. \<not> check_if_episode_ended (fst ra)) (butlast ras)"
    and ends: "list_all infrastructure_terminated ends"
    and small: "length ts \<le> 2 ^ 53"
    and coord: "dom coord \<inter> ledger_keys ats = {}"
    and e: "e = exec ats (cs @ c0 # map (\<lambda>ra. Step (fst ra) (snd ra)) ras @ ends) (init ats)"
  shows "(\<exists>out. snd (android_logs fdiv ats coord e) = Inr out
       \<and> out (steps_key ''androidenv_episode'') = Some (real (length ts))
       \<and> (ts \<noteq> [] \<longrightarrow>
            (\<forall>t \<in> set ats.
                out (ratio_key ''androidenv_episode'' (fst t)) =
                  Some (fdiv (real (count_list ts t)) (real (length ts)))
                \<and> \<bar>fdiv (real (count_list ts t)) (real (length ts))
                     - real (count_list ts t) / real (length ts)\<bar>
                   \<le> u * (real (count_list ts t) / real (length ts)))
            \<and> \<bar>(\<Sum>t\<leftarrow>ats. the (out (ratio_key ''androidenv_episode'' (fst t)))) - 1\<bar> \<le> u)
       \<and> (ts = [] \<longrightarrow>
            (\<forall>t \<in> set ats. out (ratio_key ''androidenv_episode'' (fst t)) =
                coord (ratio_key ''androidenv_episode'' (fst t)))
            \<and> Logging_warning ''androidenv_episode_steps is 0. Skipping ratio logs.''
                 \<in> set (drop (length (collab_calls e))
                      (collab_calls (fst (android_logs fdiv ats coord e))))))
     \<and> (\<forall>cs' e' p. e' = exec ats cs' (init ats) \<longrightarrow> p \<in> set log_prefixes \<longrightarrow>
          (\<exists>out n. snd (android_logs fdiv ats coord e') = Inr out
             \<and> log_dict e' (steps_key p) = Some n \<and> out (steps_key p) = Some n
             \<and> (n = 0 \<longrightarrow>
                  (\<forall>t \<in> set ats. out (ratio_key p (fst t)) = coord (ratio_key p (fst t)))
                  \<and> Logging_warning (p @ ''_steps is 0. Skipping ratio logs.'')
                       \<in> set (drop (length (collab_calls e'))
                            (collab_calls (fst (android_logs fdiv ats coord e')))))
             \<and> (n \<noteq> 0 \<longrightarrow>
                  (\<forall>t \<in> set ats. \<exists>c. log_dict e' (type_key p (fst t)) = Some c
                        \<and> out (ratio_key p (fst t)) = Some (fdiv c n))
                  \<and> Logging_warning (p @ ''_steps is 0. Skipping ratio logs.'')
                       \<notin> set (drop (length (collab_calls e'))
                            (collab_calls (fst (android_logs fdiv ats coord e')))))))
     \<and> (\<forall>fdiv' coord' e'. snd (android_logs fdiv' ats coord' e') \<noteq> Inl ZeroDivisionError)"
proof -
  from wf have ds: "distinct (map snd ats)" and dn: "distinct (map fst ats)"
    and dist: "distinct ats"
    by (auto simp add: well_formed_enum_def distinct_map)
  define e0 where "e0 = exec ats cs (init ats)"
  define e1 where "e1 = fst (do_call ats c0 e0)"
  define e2 where "e2 = exec ats (map (\<lambda>ra. Step (fst ra) (snd ra)) ras) e1"
  have k0: "dom (log_dict e0) = ledger_keys ats"
    by (simp add: e0_def dom_reachable)
  have k1: "ledger_keys ats \<subseteq> dom (log_dict e1)"
    by (simp add: e1_def dom_do_call k0)
  from FIRST_starts_episode [OF first [folded e0_def]]
  have l1: "log_dict e1 = reset_log_dict (log_dict e0)" and p1: "\<not> reset_next_step e1"
    by (simp_all add: e1_def)
  have x: "e = exec ats ends e2"
    by (simp add: e exec_append e0_def e1_def e2_def)
  have members: "set ts \<subseteq> set ats"
    using recd by (rule recorded_members)
  define vals where "vals = map (\<lambda>t. real_of_int (snd t)) ts"
  have l: "log_dict e2 = fst (update_log_dict_all ats vals (log_dict e1))"
    unfolding e2_def vals_def by (rule episode_counts [OF ds p1 k1 recd running])
  have z: "log_dict e1 (steps_key ''androidenv_episode'') = Some 0"
    "\<forall>t \<in> set ats. log_dict e1 (type_key ''androidenv_episode'' (fst t)) = Some 0"
  proof -
    have "ledger_keys ats \<subseteq> dom (log_dict e0)"
      using k0 by simp
    from reset_log_dict_episode [OF this]
    show "log_dict e1 (steps_key ''androidenv_episode'') = Some 0"
      "\<forall>t \<in> set ats. log_dict e1 (type_key ''androidenv_episode'' (fst t)) = Some 0"
      unfolding l1 by blast+
  qed
  note c = update_log_dict_all_counts [OF dn ds members k1 z, folded vals_def, folded l]
  have kept: "log_dict e (steps_key ''androidenv_episode'') = log_dict e2 (steps_key ''androidenv_episode'')"
    "log_dict e (type_key ''androidenv_episode'' n) = log_dict e2 (type_key ''androidenv_episode'' n)" for n
    unfolding x by (rule exec_terminated_counters [OF ends]; simp add: steps_key_def type_key_def)+
  have sE: "log_dict e (steps_key ''androidenv_episode'') = Some (real (length ts))"
    using c kept(1) by simp
  have cE: "log_dict e (type_key ''androidenv_episode'' (fst t)) = Some (real (count_list ts t))"
    if "t \<in> set ats" for t
  proof -
    from c that have "log_dict e2 (type_key ''androidenv_episode'' (fst t)) = Some (0 + real (count_list ts t))"
      by blast
    then show ?thesis
      by (simp add: kept(2))
  qed
  have dom_e: "dom (log_dict e) = ledger_keys ats"
    unfolding e by (rule dom_reachable)
  from android_logs_scope [OF wf coord dom_e log_prefixes_mem(2), of fdiv] sE
  obtain out where out: "snd (android_logs fdiv ats coord e) = Inr out"
    "out (steps_key ''androidenv_episode'') = Some (real (length ts))"
    "real (length ts) = 0 \<longrightarrow>
          (\<forall>t \<in> set ats. out (ratio_key ''androidenv_episode'' (fst t)) =
              coord (ratio_key ''androidenv_episode'' (fst t)))
          \<and> Logging_warning (''androidenv_episode'' @ ''_steps is 0. Skipping ratio logs.'')
               \<in> set (drop (length (collab_calls e)) (collab_calls (fst (android_logs fdiv ats coord e))))"
    "real (length ts) \<noteq> 0 \<longrightarrow>
          (\<forall>t \<in> set ats. \<exists>c. log_dict e (type_key ''androidenv_episode'' (fst t)) = Some c
                \<and> out (ratio_key ''androidenv_episode'' (fst t)) = Some (fdiv c (real (length ts))))"
    by auto
  have ratios: "out (ratio_key ''androidenv_episode'' (fst t)) =
                  Some (fdiv (real (count_list ts t)) (real (length ts)))"
    if "ts \<noteq> []" "t \<in> set ats" for t
  proof -
    from that(1) have "real (length ts) \<noteq> 0" by simp
    with out(4) that(2) obtain c where "log_dict e (type_key ''androidenv_episode'' (fst t)) = Some c"
      "out (ratio_key ''androidenv_episode'' (fst t)) = Some (fdiv c (real (length ts)))"
      by blast
    with cE [OF that(2)] show ?thesis
      by simp
  qed
  have total: "\<bar>(\<Sum>t\<leftarrow>ats. the (out (ratio_key ''androidenv_episode'' (fst t)))) - 1\<bar> \<le> u"
    if "ts \<noteq> []"
  proof -
    have "(\<Sum>t\<leftarrow>ats. the (out (ratio_key ''androidenv_episode'' (fst t)))) =
        (\<Sum>t\<leftarrow>ats. fdiv (real (count_list ts t)) (real (length ts)))"
      using ratios [OF that] by (intro arg_cong [where f = sum_list] map_cong refl) simp
    with ratios_sum_bound [OF acc dist members that small] show ?thesis
      by simp
  qed
  have partA: "\<exists>out. snd (android_logs fdiv ats coord e) = Inr out
       \<and> out (steps_key ''androidenv_episode'') = Some (real (length ts))
       \<and> (ts \<noteq> [] \<longrightarrow>
            (\<forall>t \<in> set ats.
                out (ratio_key ''androidenv_episode'' (fst t)) =
                  Some (fdiv (real (count_list ts t)) (real (length ts)))
                \<and> \<bar>fdiv (real (count_list ts t)) (real (length ts))
                     - real (count_list ts t) / real (length ts)\<bar>
                   \<le> u * (real (count_list ts t) / real (length ts)))
            \<and> \<bar>(\<Sum>t\<leftarrow>ats. the (out (ratio_key ''androidenv_episode'' (fst t)))) - 1\<bar> \<le> u)
       \<and> (ts = [] \<longrightarrow>
            (\<forall>t \<in> set ats. out (ratio_key ''androidenv_episode'' (fst t)) =
                coord (ratio_key ''androidenv_episode'' (fst t)))
            \<and> Logging_warning ''androidenv_episode_steps is 0. Skipping ratio logs.''
                 \<in> set (drop (length (collab_calls e))
                      (collab_calls (fst (android_logs fdiv ats coord e)))))"
  proof (intro exI [of _ out] conjI impI ballI)
    show "snd (android_logs fdiv ats coord e) = Inr out"
      by (rule out(1))
    show "out (steps_key ''androidenv_episode'') = Some (real (length ts))"
      by (rule out(2))
  next
    fix t
    assume "ts \<noteq> []" "t \<in> set ats"
    then show "out (ratio_key ''androidenv_episode'' (fst t)) =
                  Some (fdiv (real (count_list ts t)) (real (length ts)))"
      by (rule ratios)
  next
    fix t
    assume "ts \<noteq> []"
    with acc show "\<bar>fdiv (real (count_list ts t)) (real (length ts))
                     - real (count_list ts t) / real (length ts)\<bar>
                   \<le> u * (real (count_list ts t) / real (length ts))"
      using small by (rule ratio_error)
  next
    assume "ts \<noteq> []"
    then show "\<bar>(\<Sum>t\<leftarrow>ats. the (out (ratio_key ''androidenv_episode'' (fst t)))) - 1\<bar> \<le> u"
      by (rule total)
  next
    fix t
    assume "ts = []" "t \<in> set ats"
    with out(3) show "out (ratio_key ''androidenv_episode'' (fst t)) =
                coord (ratio_key ''androidenv_episode'' (fst t))"
      by simp
  next
    assume "ts = []"
    with out(3) show "Logging_warning ''androidenv_episode_steps is 0. Skipping ratio logs.''
                 \<in> set (drop (length (collab_calls e))
                      (collab_calls (fst (android_logs fdiv ats coord e))))"
      by simp
  qed
  have partB: "\<forall>cs' e' p. e' = exec ats cs' (init ats) \<longrightarrow> p \<in> set log_prefixes \<longrightarrow>
          (\<exists>out n. snd (android_logs fdiv ats coord e') = Inr out
             \<and> log_dict e' (steps_key p) = Some n \<and> out (steps_key p) = Some n
             \<and> (n = 0 \<longrightarrow>
                  (\<forall>t \<in> set ats. out (ratio_key p (fst t)) = coord (ratio_key p (fst t)))
                  \<and> Logging_warning (p @ ''_steps is 0. Skipping ratio logs.'')
                       \<in> set (drop (length (collab_calls e'))
                            (collab_calls (fst (android_logs fdiv ats coord e')))))
             \<and> (n \<noteq> 0 \<longrightarrow>
                  (\<forall>t \<in> set ats. \<exists>c. log_dict e' (type_key p (fst t)) = Some c
                        \<and> out (ratio_key p (fst t)) = Some (fdiv c n))
                  \<and> Logging_warning (p @ ''_steps is 0. Skipping ratio logs.'')
                       \<notin> set (drop (length (collab_calls e'))
                            (collab_calls (fst (android_logs fdiv ats coord e'))))))"
  proof (intro allI impI)
    fix cs' e' p
    assume e': "e' = exec ats cs' (init ats)" and p: "p \<in> set log_prefixes"
    have "dom (log_dict e') = ledger_keys ats"
      unfolding e' by (rule dom_reachable)
    from android_logs_scope [OF wf coord this p]
    show "\<exists>out n. snd (android_logs fdiv ats coord e') = Inr out
             \<and> log_dict e' (steps_key p) = Some n \<and> out (steps_key p) = Some n
             \<and> (n = 0 \<longrightarrow>
                  (\<forall>t \<in> set ats. out (ratio_key p (fst t)) = coord (ratio_key p (fst t)))
                  \<and> Logging_warning (p @ ''_steps is 0. Skipping ratio logs.'')
                       \<in> set (drop (length (collab_calls e'))
                            (collab_calls (fst (android_logs fdiv ats coord e')))))
             \<and> (n \<noteq> 0 \<longrightarrow>
                  (\<forall>t \<in> set ats. \<exists>c. log_dict e' (type_key p (fst t)) = Some c
                        \<and> out (ratio_key p (fst t)) = Some (fdiv c n))
                  \<and> Logging_warning (p @ ''_steps is 0. Skipping ratio logs.'')
                       \<notin> set (drop (length (collab_calls e'))
                            (collab_calls (fst (android_logs fdiv ats coord e')))))" .
  qed
  have partC: "\<forall>fdiv' coord' e'. snd (android_logs fdiv' ats coord' e') \<noteq> Inl ZeroDivisionError"
    by (simp add: android_logs_no_zero_division)
  from partA partB partC show ?thesis
    by (rule conjI [OF _ conjI])
qed


text \<open>
  The theorem at an episode that a \<open>step\<close> on a new object starts, of four steps
  (\<open>LIFT\<close>, \<open>TOUCH\<close>, \<open>LIFT\<close>, \<open>TOUCH\<close>) and then a restart, and, for the counters of
  the lifetime, at an object on which no step has been executed.
\<close>

theorem flush_after_recorded_steps_witness:
  "(\<exists>out. snd (android_logs exact_division sample_types [''coordinator_restarts'' \<mapsto> 4]
             (exec sample_types
                [Step quiet sample_action,
                 Step quiet sample_action, Step quiet touch_action, Step quiet sample_action,
                 Step (quiet\<lparr>check_if_episode_ended := True\<rparr>) touch_action,
                 Step (quiet\<lparr>should_restart := True\<rparr>) sample_action]
                (init sample_types))) = Inr out
     \<and> out ''androidenv_episode_steps'' = Some 4
     \<and> out ''androidenv_episode_action_type_ratio_TOUCH'' = Some (1 / 2)
     \<and> out ''androidenv_episode_action_type_ratio_LIFT'' = Some (1 / 2)
     \<and> out ''androidenv_episode_action_type_ratio_REPEAT'' = Some 0
     \<and> \<bar>(\<Sum>t\<leftarrow>sample_types. the (out (ratio_key ''androidenv_episode'' (fst t)))) - 1\<bar> \<le> 1 / 2 ^ 53)
   \<and> (\<exists>out. snd (android_logs exact_division sample_types [''coordinator_restarts'' \<mapsto> 4]
             (exec sample_types [Reset quiet] (init sample_types))) = Inr out
     \<and> out ''androidenv_total_steps'' = Some 0
     \<and> out ''androidenv_total_action_type_ratio_LIFT'' = None
     \<and> Logging_warning ''androidenv_total_steps is 0. Skipping ratio logs.''
        \<in> set (drop (length (collab_calls (exec sample_types [Reset quiet] (init sample_types))))
             (collab_calls (fst (android_logs exact_division sample_types [''coordinator_restarts'' \<mapsto> 4]
                (exec sample_types [Reset quiet] (init sample_types)))))))"
proof -
  let ?ras = "[(quiet, sample_action), (quiet, touch_action), (quiet, sample_action),
               (quiet\<lparr>check_if_episode_ended := True\<rparr>, touch_action)]"
  let ?ts = "[(''LIFT'', 1), (''TOUCH'', 0), (''LIFT'', 1), (''TOUCH'', 0)] :: ActionType list"
  let ?ends = "[Step (quiet\<lparr>should_restart := True\<rparr>) sample_action]"
  let ?coord = "[''coordinator_restarts'' \<mapsto> 4] :: counters"
  let ?e = "exec sample_types
                [Step quiet sample_action,
                 Step quiet sample_action, Step quiet touch_action, Step quiet sample_action,
                 Step (quiet\<lparr>check_if_episode_ended := True\<rparr>) touch_action,
                 Step (quiet\<lparr>should_restart := True\<rparr>) sample_action]
                (init sample_types)"
  let ?first = "exec sample_types [Reset quiet] (init sample_types)"
  have wf: "well_formed_enum sample_types"
    by (simp add: well_formed_enum_def)
  have acc: "accurate_division exact_division (1 / 2 ^ 53)"
    by (simp add: accurate_division_def)
  have first: "returned_type (snd (do_call sample_types (Step quiet sample_action)
      (exec sample_types [] (init sample_types)))) = Some FIRST"
    by (simp add: eval_defs returned_type_def)
  have recd: "list_all2 (recorded sample_types) ?ras ?ts"
    by (simp add: recorded_def item_def)
  have running: "list_all (\<lambda>ra. \<not> check_if_episode_ended (fst ra)) (butlast ?ras)"
    by simp
  have ends: "list_all infrastructure_terminated ?ends"
    by (simp add: infrastructure_terminated_def)
  have small: "length ?ts \<le> 2 ^ 53"
    by simp
  have coord: "dom ?coord \<inter> ledger_keys sample_types = {}"
    by (simp add: ledger_keys_def log_prefixes_def steps_key_def type_key_def)
  have e: "?e = exec sample_types
      ([] @ Step quiet sample_action # map (\<lambda>ra. Step (fst ra) (snd ra)) ?ras @ ?ends)
      (init sample_types)"
    by simp
  note w = flush_after_recorded_steps [OF wf acc first recd running ends small coord e]
  from w [THEN conjunct1]
  obtain out where out: "snd (android_logs exact_division sample_types ?coord ?e) = Inr out"
    "out (steps_key ''androidenv_episode'') = Some (real (length ?ts))"
    "?ts \<noteq> [] \<longrightarrow>
       (\<forall>t \<in> set sample_types.
           out (ratio_key ''androidenv_episode'' (fst t)) =
             Some (real (count_list ?ts t) / real (length ?ts))
           \<and> \<bar>real (count_list ?ts t) / real (length ?ts)
                - real (count_list ?ts t) / real (length ?ts)\<bar>
              \<le> 1 / 2 ^ 53 * (real (count_list ?ts t) / real (length ?ts)))
       \<and> \<bar>(\<Sum>t\<leftarrow>sample_types. the (out (ratio_key ''androidenv_episode'' (fst t)))) - 1\<bar>
          \<le> 1 / 2 ^ 53"
    by blast
  from out(2) have a: "out ''androidenv_episode_steps'' = Some 4"
    by (simp add: steps_key_def)
  from out(3) have r: "\<forall>t \<in> set sample_types.
           out (ratio_key ''androidenv_episode'' (fst t)) =
             Some (real (count_list ?ts t) / real (length ?ts))"
    and s: "\<bar>(\<Sum>t\<leftarrow>sample_types. the (out (ratio_key ''androidenv_episode'' (fst t)))) - 1\<bar>
          \<le> 1 / 2 ^ 53"
    by blast+
  from r have b: "out ''androidenv_episode_action_type_ratio_TOUCH'' = Some (1 / 2)"
    "out ''androidenv_episode_action_type_ratio_LIFT'' = Some (1 / 2)"
    "out ''androidenv_episode_action_type_ratio_REPEAT'' = Some 0"
    by (simp_all add: ratio_key_def)
  have p: "''androidenv_total'' \<in> set log_prefixes"
    by (simp add: log_prefixes_def)
  from w [THEN conjunct2, THEN conjunct1, rule_format, OF refl p, of "[Reset quiet]"]
  obtain out0 n where out0: "snd (android_logs exact_division sample_types ?coord ?first) = Inr out0"
    "log_dict ?first (steps_key ''androidenv_total'') = Some n"
    "out0 (steps_key ''androidenv_total'') = Some n"
    "n = 0 \<longrightarrow>
       (\<forall>t \<in> set sample_types. out0 (ratio_key ''androidenv_total'' (fst t)) =
           ?coord (ratio_key ''androidenv_total'' (fst t)))
       \<and> Logging_warning (''androidenv_total'' @ ''_steps is 0. Skipping ratio logs.'')
            \<in> set (drop (length (collab_calls ?first))
                 (collab_calls (fst (android_logs exact_division sample_types ?coord ?first))))"
    by blast
  have "log_dict ?first (steps_key ''androidenv_total'') = Some 0"
    by (simp add: eval_defs)
  with out0(2) have n: "n = 0"
    by simp
  from out0(3) n have a0: "out0 ''androidenv_total_steps'' = Some 0"
    by (simp add: steps_key_def)
  from out0(4) n have r0: "\<forall>t \<in> set sample_types. out0 (ratio_key ''androidenv_total'' (fst t)) =
           ?coord (ratio_key ''androidenv_total'' (fst t))"
    and w0: "Logging_warning (''androidenv_total'' @ ''_steps is 0. Skipping ratio logs.'')
            \<in> set (drop (length (collab_calls ?first))
                 (collab_calls (fst (android_logs exact_division sample_types ?coord ?first))))"
    by blast+
  from r0 have b0: "out0 ''androidenv_total_action_type_ratio_LIFT'' = None"
    by (simp add: ratio_key_def)
  from w0 have c0: "Logging_warning ''androidenv_total_steps is 0. Skipping ratio logs.''
            \<in> set (drop (length (collab_calls ?first))
                 (collab_calls (fst (android_logs exact_division sample_types ?coord ?first))))"
    by simp
  have one: "\<exists>out. snd (android_logs exact_division sample_types ?coord ?e) = Inr out
     \<and> out ''androidenv_episode_steps'' = Some 4
     \<and> out ''androidenv_episode_action_type_ratio_TOUCH'' = Some (1 / 2)
     \<and> out ''androidenv_episode_action_type_ratio_LIFT'' = Some (1 / 2)
     \<and> out ''androidenv_episode_action_type_ratio_REPEAT'' = Some 0
     \<and> \<bar>(\<Sum>t\<leftarrow>sample_types. the (out (ratio_key ''androidenv_episode'' (fst t)))) - 1\<bar> \<le> 1 / 2 ^ 53"
    using out(1) a b s by (intro exI [of _ out] conjI)
  have two: "\<exists>out. snd (android_logs exact_division sample_types ?coord ?first) = Inr out
     \<and> out ''androidenv_total_steps'' = Some 0
     \<and> out ''androidenv_total_action_type_ratio_LIFT'' = None
     \<and> Logging_warning ''androidenv_total_steps is 0. Skipping ratio logs.''
        \<in> set (drop (length (collab_calls ?first))
             (collab_calls (fst (android_logs exact_division sample_types ?coord ?first))))"
    using out0(1) a0 b0 c0 by (intro exI [of _ out0] conjI)
  from one two show ?thesis
    by (rule conjI)
qed

end
